theory Spec2Isabelle
  imports Main "HOL-Library.Word" "HOL-Library.List_Lexorder" "HOL-Library.Multiset"
begin

section \<open>Strings and the primitive order (src/compare.ts)\<close>

text \<open>
  A JavaScript string is a sequence of 16-bit code units, and \<open><\<close> and \<open>>\<close> on two
  strings compare them unit by unit, a proper prefix being smaller. That is the
  lexicographic order of lists (HOL-Library.List\_Lexorder) over the unsigned order of
  \<open>16 word\<close>. The encoded form of a value is such a string, so the byte-wise
  comparison of two encodings is this order too.
\<close>

type_synonym unit16 = "16 word"
type_synonym jstring = "unit16 list"

definition str :: "string \<Rightarrow> jstring" where
  "str s = map (\<lambda>c. of_nat (of_char c)) s"

text \<open>\<open>compare(a, b)\<close>: 1 when \<open>a > b\<close>, -1 when \<open>a < b\<close>, else 0.\<close>

definition compare :: "'a::ord \<Rightarrow> 'a \<Rightarrow> int" where
  "compare a b = (if a > b then 1 else if a < b then -1 else 0)"

section \<open>Values\<close>

text \<open>
  The values the codec handles. Numbers are a type \<open>'n\<close> with the relation \<open><\<close> of
  the numbers (doubles without NaN). Nothing is assumed of \<open><\<close> here: two different
  numbers may be such that neither is below the other, as \<open>0\<close> and \<open>-0\<close> are. An
  object is the list of its own enumerable string-keyed properties as
  \<open>Object.entries\<close> lists them; keys of a real object are pairwise distinct. \<open>VMin\<close> and \<open>VMax\<close> are the symbols \<open>MIN\<close> and \<open>MAX\<close>;
  \<open>VUndefined\<close> is \<open>undefined\<close>, which no encoding of the default codec matches.
\<close>

datatype 'n val =
    VNull
  | VBool bool
  | VNum 'n
  | VStr jstring
  | VArr "'n val list"
  | VObj "(jstring \<times> 'n val) list"
  | VMin
  | VMax
  | VUndefined

datatype error = MissingEncoding | SyntaxError | TypeError

text \<open>
  What the code takes from outside the repository: the \<open>elen\<close> package
  (\<open>elen.encode\<close>, \<open>elen.decode\<close>), \<open>JSON.parse\<close> on a text other than
  \<open>true\<close> and \<open>false\<close>, and the property key ECMAScript makes of a value that is
  not a string (\<open>None\<close>: a symbol, which is no string key).
\<close>

record 'n prims =
  elen_encode :: "'n \<Rightarrow> jstring"
  elen_decode :: "jstring \<Rightarrow> 'n"
  json_parse :: "jstring \<Rightarrow> error + 'n val"
  property_key :: "'n val \<Rightarrow> jstring option"

section \<open>The escape layer of ArrayEncoding\<close>

text \<open>\<open>s.replace(/c/g, r)\<close> for a single unit \<open>c\<close>.\<close>

definition replace_unit :: "unit16 \<Rightarrow> jstring \<Rightarrow> jstring \<Rightarrow> jstring" where
  "replace_unit c r s = concat (map (\<lambda>x. if x = c then r else [x]) s)"

text \<open>
  \<open>s.replace(/ab/g, r)\<close> for two units: matches are found from the left and do not
  overlap.
\<close>

fun replace_pair :: "unit16 \<Rightarrow> unit16 \<Rightarrow> jstring \<Rightarrow> jstring \<Rightarrow> jstring" where
  "replace_pair a b r (x # y # s) =
     (if x = a \<and> y = b then r @ replace_pair a b r s
      else x # replace_pair a b r (y # s))"
| "replace_pair a b r s = s"

definition escape :: "jstring \<Rightarrow> jstring" where
  "escape encoded = replace_unit 0 [1, 0] (replace_unit 1 [1, 1] encoded)"

definition unescape :: "jstring \<Rightarrow> jstring" where
  "unescape escaped = replace_pair 1 0 [0] (replace_pair 1 1 [1] escaped)"

text \<open>
  \<open>ArrayEncoding.encode\<close>: every element is encoded by the callback, escaped and
  followed by the terminator; the frames are joined. An element the callback throws on
  aborts the whole call.
\<close>

fun ArrayEncoding_encode :: "('v \<Rightarrow> error + jstring) \<Rightarrow> 'v list \<Rightarrow> error + jstring" where
  "ArrayEncoding_encode encode [] = Inr []"
| "ArrayEncoding_encode encode (v # array) =
     (case encode v of
        Inl e \<Rightarrow> Inl e
      | Inr encoded \<Rightarrow>
          (case ArrayEncoding_encode encode array of
             Inl e \<Rightarrow> Inl e
           | Inr rest \<Rightarrow> Inr (escape encoded @ [0] @ rest)))"

text \<open>
  The loop of \<open>ArrayEncoding.decode\<close>. The first list is the text from the position
  the regular expression \<open>/(\x01(\x01|\x00)|\x00)/g\<close> searches from; \<open>escaped\<close> is
  \<open>value.slice(start, position)\<close>. At a position the expression matches a pair
  \<open>01 01\<close> or \<open>01 00\<close> (the loop continues behind it), or a single \<open>00\<close> (the frame
  ends: it is unescaped, decoded and pushed, and \<open>start\<close> moves behind the \<open>00\<close>);
  elsewhere the search moves on by one unit. With no match left the array is returned.
\<close>

fun scan_frames ::
  "(jstring \<Rightarrow> error + 'v) \<Rightarrow> jstring \<Rightarrow> jstring \<Rightarrow> 'v list \<Rightarrow> error + 'v list" where
  "scan_frames decode [] escaped array = Inr array"
| "scan_frames decode (x # rest) escaped array =
     (if x = 1 then
        (case rest of
           [] \<Rightarrow> scan_frames decode rest (escaped @ [x]) array
         | y # rest' \<Rightarrow>
             if y = 1 \<or> y = 0 then scan_frames decode rest' (escaped @ [x, y]) array
             else scan_frames decode rest (escaped @ [x]) array)
      else if x = 0 then
        (case decode (unescape escaped) of
           Inl e \<Rightarrow> Inl e
         | Inr decoded \<Rightarrow> scan_frames decode rest [] (array @ [decoded]))
      else scan_frames decode rest (escaped @ [x]) array)"

definition ArrayEncoding_decode :: "(jstring \<Rightarrow> error + 'v) \<Rightarrow> jstring \<Rightarrow> error + 'v list" where
  "ArrayEncoding_decode decode value =
     (if value = [] then Inr [] else scan_frames decode value [] [])"

text \<open>
  \<open>ArrayEncoding.compare\<close>: the loop over \<open>i < len\<close>, then the comparison of the two
  lengths.
\<close>

function compare_loop ::
  "('v \<Rightarrow> 'v \<Rightarrow> error + int) \<Rightarrow> 'v list \<Rightarrow> 'v list \<Rightarrow> nat \<Rightarrow> nat \<Rightarrow> error + int" where
  "compare_loop cmp a b len i =
     (if i < len then
        (case cmp (a ! i) (b ! i) of
           Inl e \<Rightarrow> Inl e
         | Inr dir \<Rightarrow> if dir \<noteq> 0 then Inr dir else compare_loop cmp a b len (i + 1))
      else Inr (compare (length a) (length b)))"
  by pat_completeness auto
termination
  by (relation "measure (\<lambda>(cmp, a, b, len, i). len - i)") auto

declare compare_loop.simps [simp del]

definition ArrayEncoding_compare ::
  "('v \<Rightarrow> 'v \<Rightarrow> error + int) \<Rightarrow> 'v list \<Rightarrow> 'v list \<Rightarrow> error + int" where
  "ArrayEncoding_compare cmp a b = compare_loop cmp a b (min (length a) (length b)) 0"

subsection \<open>What the callbacks are applied to\<close>

lemma replace_pair_length: "length (replace_pair a b [c] s) \<le> length s"
  by (induction a b "[c]" s rule: replace_pair.induct) auto

lemma unescape_length: "length (unescape s) \<le> length s"
  unfolding unescape_def
  by (meson order_trans replace_pair_length)

lemma ArrayEncoding_encode_ext:
  "(\<And>v. v \<in> set array \<Longrightarrow> encode v = encode' v)
   \<Longrightarrow> ArrayEncoding_encode encode array = ArrayEncoding_encode encode' array"
  by (induction array) (simp_all split: sum.splits)

lemma ArrayEncoding_encode_cong [fundef_cong]:
  "\<lbrakk>array = array'; \<And>v. v \<in> set array' \<Longrightarrow> encode v = encode' v\<rbrakk>
   \<Longrightarrow> ArrayEncoding_encode encode array = ArrayEncoding_encode encode' array'"
  using ArrayEncoding_encode_ext by blast

lemma scan_frames_ext:
  assumes fg: "\<And>x. length x < n \<Longrightarrow> f x = g x"
  shows "length escaped + length rest \<le> n
         \<Longrightarrow> scan_frames f rest escaped array = scan_frames g rest escaped array"
proof (induction rest arbitrary: escaped array rule: length_induct)
  case (1 rest)
  show ?case
  proof (cases rest)
    case Nil
    then show ?thesis by simp
  next
    case (Cons x r)
    note IH = 1(1) [rule_format]
    have len: "length escaped + Suc (length r) \<le> n"
      using 1(2) Cons by simp
    consider (one) "x = 1" | (zero) "x = 0" | (other) "x \<noteq> 1" "x \<noteq> 0"
      by blast
    then show ?thesis
    proof cases
      case one
      show ?thesis
      proof (cases r)
        case Nil
        then show ?thesis using Cons one by simp
      next
        case (Cons y r')
        have a: "scan_frames f r' (escaped @ [x, y]) array = scan_frames g r' (escaped @ [x, y]) array"
          using len Cons \<open>rest = x # r\<close> by (intro IH) simp_all
        have b: "scan_frames f r (escaped @ [x]) array = scan_frames g r (escaped @ [x]) array"
          using len Cons \<open>rest = x # r\<close> by (intro IH) simp_all
        show ?thesis
          using a b Cons one \<open>rest = x # r\<close> by simp
      qed
    next
      case zero
      have "length (unescape escaped) < n"
        using unescape_length [of escaped] len by simp
      then have eq: "f (unescape escaped) = g (unescape escaped)"
        by (rule fg)
      have b: "\<And>arr. scan_frames f r [] arr = scan_frames g r [] arr"
        using len Cons by (intro IH) simp_all
      show ?thesis
        using eq b Cons zero by (simp split: sum.splits)
    next
      case other
      have b: "scan_frames f r (escaped @ [x]) array = scan_frames g r (escaped @ [x]) array"
        using len Cons by (intro IH) simp_all
      show ?thesis
        using b Cons other by simp
    qed
  qed
qed

lemma ArrayEncoding_decode_cong [fundef_cong]:
  "\<lbrakk>value = value'; \<And>x. length x < length value' \<Longrightarrow> f x = g x\<rbrakk>
   \<Longrightarrow> ArrayEncoding_decode f value = ArrayEncoding_decode g value'"
  unfolding ArrayEncoding_decode_def
  using scan_frames_ext [of "length value'" f g "[]" value' "[]"] by simp

lemma compare_loop_ext:
  assumes "\<And>j. j < len \<Longrightarrow> cmp (a ! j) (b ! j) = cmp' (a ! j) (b ! j)"
  shows "compare_loop cmp a b len i = compare_loop cmp' a b len i"
proof (induction "len - i" arbitrary: i)
  case 0
  then have "\<not> i < len" by simp
  then show ?case
    by (simp add: compare_loop.simps [of _ a b len i])
next
  case (Suc k)
  then have lt: "i < len" and k: "k = len - (i + 1)" by simp_all
  have IH: "compare_loop cmp a b len (i + 1) = compare_loop cmp' a b len (i + 1)"
    using Suc(1) k by blast
  show ?case
    using lt IH assms [OF lt]
    by (simp add: compare_loop.simps [of _ a b len i] split: sum.splits)
qed

lemma ArrayEncoding_compare_cong [fundef_cong]:
  "\<lbrakk>a = a'; b = b'; \<And>x y. x \<in> set a' \<Longrightarrow> y \<in> set b' \<Longrightarrow> cmp x y = cmp' x y\<rbrakk>
   \<Longrightarrow> ArrayEncoding_compare cmp a b = ArrayEncoding_compare cmp' a' b'"
  unfolding ArrayEncoding_compare_def
  by (auto intro!: compare_loop_ext)

section \<open>ObjectEncoding\<close>

text \<open>\<open>Object.entries(value).sort(([k1], [k2]) => compare(k1, k2))\<close>.\<close>

definition sorted_entries :: "(jstring \<times> 'v) list \<Rightarrow> (jstring \<times> 'v) list" where
  "sorted_entries value = sort_key fst value"

fun flatten :: "'a list list \<Rightarrow> 'a list" where
  "flatten [] = []"
| "flatten (inner # array) = inner @ flatten array"

text \<open>
  \<open>chunk(array, size)\<close>, the size written \<open>sz\<close>; \<open>array\<close> is what is left of the
  array from index \<open>i\<close> on, and a step takes \<open>array.slice(i, i + size)\<close> and moves
  \<open>i\<close> on by \<open>size\<close>. With \<open>sz = 0\<close> the loop of the source does not end on a
  non-empty array: the model gives \<open>[]\<close> there and nothing is proved about it (the
  codec calls \<open>chunk(items, 2)\<close> only).
\<close>

function chunk :: "'a list \<Rightarrow> nat \<Rightarrow> 'a list list" where
  "chunk array sz =
     (if array = [] \<or> sz = 0 then []
      else take sz array # chunk (drop sz array) sz)"
  by pat_completeness auto
termination
  by (relation "measure (\<lambda>(array, sz). length array)") auto

declare chunk.simps [simp del]

definition ObjectEncoding_encode ::
  "('n val \<Rightarrow> error + jstring) \<Rightarrow> (jstring \<times> 'n val) list \<Rightarrow> error + jstring" where
  "ObjectEncoding_encode encode value =
     (let entries = sorted_entries value;
          items = flatten (map (\<lambda>(k, v). [VStr k, v]) entries)
      in ArrayEncoding_encode encode items)"

text \<open>
  \<open>obj[key] = value\<close> on an object made by \<open>{}\<close>. The key is the string itself, or
  what ECMAScript makes of another value. A key that is already there keeps its place;
  a new one comes last. \<open>__proto__\<close> is the accessor inherited from
  \<open>Object.prototype\<close>: assigning to it makes no own property (it may change the
  prototype, which the values of the model do not carry).
\<close>

fun put :: "jstring \<Rightarrow> 'v \<Rightarrow> (jstring \<times> 'v) list \<Rightarrow> (jstring \<times> 'v) list" where
  "put k v [] = [(k, v)]"
| "put k v ((k', v') # obj) = (if k' = k then (k, v) # obj else (k', v') # put k v obj)"

definition set_property ::
  "'n prims \<Rightarrow> (jstring \<times> 'n val) list \<Rightarrow> 'n val \<Rightarrow> 'n val \<Rightarrow> (jstring \<times> 'n val) list" where
  "set_property P obj key v =
     (case (case key of VStr k \<Rightarrow> Some k | _ \<Rightarrow> property_key P key) of
        None \<Rightarrow> obj
      | Some k \<Rightarrow> if k = str ''__proto__'' then obj else put k v obj)"

text \<open>An element of an array pattern that the array is too short for is \<open>undefined\<close>.\<close>

definition element :: "'n val list \<Rightarrow> nat \<Rightarrow> 'n val" where
  "element xs i = (if i < length xs then xs ! i else VUndefined)"

fun assign_entries ::
  "'n prims \<Rightarrow> (jstring \<times> 'n val) list \<Rightarrow> 'n val list list \<Rightarrow> (jstring \<times> 'n val) list" where
  "assign_entries P obj [] = obj"
| "assign_entries P obj (entry # entries) =
     assign_entries P (set_property P obj (element entry 0) (element entry 1)) entries"

definition ObjectEncoding_decode ::
  "'n prims \<Rightarrow> (jstring \<Rightarrow> error + 'n val) \<Rightarrow> jstring \<Rightarrow> error + 'n val" where
  "ObjectEncoding_decode P decode value =
     (case ArrayEncoding_decode decode value of
        Inl e \<Rightarrow> Inl e
      | Inr items \<Rightarrow> Inr (VObj (assign_entries P [] (chunk items 2))))"

function object_compare_loop ::
  "('v \<Rightarrow> 'v \<Rightarrow> error + int) \<Rightarrow> (jstring \<times> 'v) list \<Rightarrow> (jstring \<times> 'v) list
   \<Rightarrow> nat \<Rightarrow> nat \<Rightarrow> error + int" where
  "object_compare_loop cmp ae be len i =
     (if i < len then
        (let (ak, av) = ae ! i; (bk, bv) = be ! i; dir = compare ak bk
         in if dir \<noteq> 0 then Inr dir
            else (case cmp av bv of
                    Inl e \<Rightarrow> Inl e
                  | Inr dir2 \<Rightarrow>
                      if dir2 \<noteq> 0 then Inr dir2
                      else object_compare_loop cmp ae be len (i + 1)))
      else Inr (compare (length ae) (length be)))"
  by pat_completeness auto
termination
  by (relation "measure (\<lambda>(cmp, ae, be, len, i). len - i)") auto

declare object_compare_loop.simps [simp del]

definition ObjectEncoding_compare ::
  "('v \<Rightarrow> 'v \<Rightarrow> error + int) \<Rightarrow> (jstring \<times> 'v) list \<Rightarrow> (jstring \<times> 'v) list \<Rightarrow> error + int" where
  "ObjectEncoding_compare cmp a b =
     (let ae = sorted_entries a; be = sorted_entries b
      in object_compare_loop cmp ae be (min (length ae) (length be)) 0)"

lemma object_compare_loop_ext:
  assumes "\<And>j. j < len \<Longrightarrow> cmp (snd (ae ! j)) (snd (be ! j)) = cmp' (snd (ae ! j)) (snd (be ! j))"
  shows "object_compare_loop cmp ae be len i = object_compare_loop cmp' ae be len i"
proof (induction "len - i" arbitrary: i)
  case 0
  then have "\<not> i < len" by simp
  then show ?case
    by (simp add: object_compare_loop.simps [of _ ae be len i])
next
  case (Suc k)
  then have lt: "i < len" and k: "k = len - (i + 1)" by simp_all
  have IH: "object_compare_loop cmp ae be len (i + 1) = object_compare_loop cmp' ae be len (i + 1)"
    using Suc(1) k by blast
  obtain ak av bk bv where e: "ae ! i = (ak, av)" "be ! i = (bk, bv)"
    by (metis surj_pair)
  have c: "cmp av bv = cmp' av bv"
    using assms [OF lt] e by simp
  show ?case
    using IH
    by (simp add: object_compare_loop.simps [of _ ae be len i] e lt c Let_def
        split: sum.splits)
qed

lemma ObjectEncoding_compare_cong [fundef_cong]:
  "\<lbrakk>a = a'; b = b';
    \<And>x y. x \<in> snd ` set a' \<Longrightarrow> y \<in> snd ` set b' \<Longrightarrow> cmp x y = cmp' x y\<rbrakk>
   \<Longrightarrow> ObjectEncoding_compare cmp a b = ObjectEncoding_compare cmp' a' b'"
proof -
  assume h: "a = a'" "b = b'"
    "\<And>x y. x \<in> snd ` set a' \<Longrightarrow> y \<in> snd ` set b' \<Longrightarrow> cmp x y = cmp' x y"
  have "\<And>j. j < min (length (sorted_entries a')) (length (sorted_entries b'))
     \<Longrightarrow> cmp (snd (sorted_entries a' ! j)) (snd (sorted_entries b' ! j))
       = cmp' (snd (sorted_entries a' ! j)) (snd (sorted_entries b' ! j))"
  proof -
    fix j assume j: "j < min (length (sorted_entries a')) (length (sorted_entries b'))"
    have "sorted_entries a' ! j \<in> set (sorted_entries a')" using j by simp
    then have 1: "snd (sorted_entries a' ! j) \<in> snd ` set a'"
      by (simp add: sorted_entries_def)
    have "sorted_entries b' ! j \<in> set (sorted_entries b')" using j by simp
    then have 2: "snd (sorted_entries b' ! j) \<in> snd ` set b'"
      by (simp add: sorted_entries_def)
    show "cmp (snd (sorted_entries a' ! j)) (snd (sorted_entries b' ! j))
       = cmp' (snd (sorted_entries a' ! j)) (snd (sorted_entries b' ! j))"
      using h(3) 1 2 by blast
  qed
  then show ?thesis
    unfolding ObjectEncoding_compare_def Let_def h(1) h(2)
    by (rule object_compare_loop_ext)
qed

lemma flatten_concat: "flatten xss = concat xss"
  by (induction xss) simp_all

lemma ObjectEncoding_encode_cong [fundef_cong]:
  "\<lbrakk>value = value';
    \<And>k v. (k, v) \<in> set value' \<Longrightarrow> encode (VStr k) = encode' (VStr k) \<and> encode v = encode' v\<rbrakk>
   \<Longrightarrow> ObjectEncoding_encode encode value = ObjectEncoding_encode encode' value'"
  unfolding ObjectEncoding_encode_def Let_def
  by (rule ArrayEncoding_encode_cong) (auto simp: sorted_entries_def flatten_concat)

lemma ObjectEncoding_decode_cong [fundef_cong]:
  "\<lbrakk>value = value'; \<And>x. length x < length value' \<Longrightarrow> f x = g x\<rbrakk>
   \<Longrightarrow> ObjectEncoding_decode P f value = ObjectEncoding_decode P g value'"
  unfolding ObjectEncoding_decode_def
  using ArrayEncoding_decode_cong [of "value" value' f g] by simp

section \<open>The codec\<close>

datatype encoding =
    MinEncoding
  | NullEncoding
  | ObjectEncoding
  | ArrayEncoding
  | NumberEncoding
  | StringEncoding
  | BooleanEncoding
  | MaxEncoding

text \<open>The \<open>match\<close> predicate of each encoding.\<close>

fun match :: "encoding \<Rightarrow> 'n val \<Rightarrow> bool" where
  "match NullEncoding v = (v = VNull)"
| "match BooleanEncoding v = (v = VBool True \<or> v = VBool False)"
| "match StringEncoding v = (case v of VStr s \<Rightarrow> True | _ \<Rightarrow> False)"
| "match NumberEncoding v = (case v of VNum x \<Rightarrow> True | _ \<Rightarrow> False)"
| "match ArrayEncoding v = (case v of VArr array \<Rightarrow> True | _ \<Rightarrow> False)"
| "match ObjectEncoding v = (case v of VObj entries \<Rightarrow> True | _ \<Rightarrow> False)"
| "match MinEncoding v = (v = VMin)"
| "match MaxEncoding v = (v = VMax)"

text \<open>
  The registry of \<open>jsonCodec\<close>, in the order \<open>Object.entries(this.encodings)\<close> lists
  it: no prefix is an integer index, so that is the order of the object literal.
\<close>

definition jsonCodec :: "(unit16 \<times> encoding) list" where
  "jsonCodec =
     [(0x00, MinEncoding),
      (0x62, NullEncoding),
      (0x63, ObjectEncoding),
      (0x64, ArrayEncoding),
      (0x65, NumberEncoding),
      (0x66, StringEncoding),
      (0x67, BooleanEncoding),
      (0xff, MaxEncoding)]"

text \<open>
  \<open>encoding.encode(value, this.encode)\<close>. The last equation is never reached from the
  codec, which calls an encoding on a value it matches.
\<close>

fun encoding_encode ::
  "'n prims \<Rightarrow> encoding \<Rightarrow> 'n val \<Rightarrow> ('n val \<Rightarrow> error + jstring) \<Rightarrow> error + jstring" where
  "encoding_encode P NullEncoding v encode = Inr []"
| "encoding_encode P MinEncoding v encode = Inr []"
| "encoding_encode P MaxEncoding v encode = Inr []"
| "encoding_encode P BooleanEncoding (VBool b) encode = Inr (if b then str ''true'' else str ''false'')"
| "encoding_encode P StringEncoding (VStr s) encode = Inr s"
| "encoding_encode P NumberEncoding (VNum x) encode = Inr (elen_encode P x)"
| "encoding_encode P ArrayEncoding (VArr array) encode = ArrayEncoding_encode encode array"
| "encoding_encode P ObjectEncoding (VObj entries) encode = ObjectEncoding_encode encode entries"
| "encoding_encode P encoding v encode = Inl TypeError"

lemma size_element: "x \<in> set xs \<Longrightarrow> size x < size (VArr xs)"
  by (simp add: less_Suc_eq_le size_list_estimation')

lemma size_entry: "(k, v) \<in> set es \<Longrightarrow> size v < size (VObj es)"
  by (induction es) auto

lemma size_key: "(k, v) \<in> set es \<Longrightarrow> size (VStr k :: 'n val) < size (VObj es)"
  by (cases es) auto

lemma encoding_encode_cong [fundef_cong]:
  "\<lbrakk>v = v'; \<And>x. size x < size v' \<Longrightarrow> f x = g x\<rbrakk>
   \<Longrightarrow> encoding_encode P enc v f = encoding_encode P enc v' g"
  by (cases "(P, enc, v', f)" rule: encoding_encode.cases)
     (auto intro!: ArrayEncoding_encode_cong ObjectEncoding_encode_cong
           dest: size_element size_entry size_key)

function Codec_encode :: "'n prims \<Rightarrow> 'n val \<Rightarrow> error + jstring" where
  "Codec_encode P v =
     (case find (\<lambda>(prefixByte, encoding). match encoding v) jsonCodec of
        None \<Rightarrow> Inl MissingEncoding
      | Some (prefixByte, encoding) \<Rightarrow>
          (case encoding_encode P encoding v (Codec_encode P) of
             Inl e \<Rightarrow> Inl e
           | Inr body \<Rightarrow> Inr (prefixByte # body)))"
  by pat_completeness auto
termination
  by (relation "measure (\<lambda>(P, v). size v)") auto

declare Codec_encode.simps [simp del]

text \<open>
  \<open>JSON.parse\<close>, as \<open>BooleanEncoding.decode\<close> uses it: the two texts
  \<open>BooleanEncoding.encode\<close> writes are parsed here, any other text by the parameter.
\<close>

definition JSON_parse :: "'n prims \<Rightarrow> jstring \<Rightarrow> error + 'n val" where
  "JSON_parse P text =
     (if text = str ''true'' then Inr (VBool True)
      else if text = str ''false'' then Inr (VBool False)
      else json_parse P text)"

text \<open>\<open>encoding.decode(rest, this.decode)\<close>.\<close>

fun encoding_decode ::
  "'n prims \<Rightarrow> encoding \<Rightarrow> jstring \<Rightarrow> (jstring \<Rightarrow> error + 'n val) \<Rightarrow> error + 'n val" where
  "encoding_decode P NullEncoding rest decode = Inr VNull"
| "encoding_decode P MinEncoding rest decode = Inr VNull"
| "encoding_decode P MaxEncoding rest decode = Inr VNull"
| "encoding_decode P BooleanEncoding rest decode = JSON_parse P rest"
| "encoding_decode P StringEncoding rest decode = Inr (VStr rest)"
| "encoding_decode P NumberEncoding rest decode = Inr (VNum (elen_decode P rest))"
| "encoding_decode P ArrayEncoding rest decode =
     (case ArrayEncoding_decode decode rest of
        Inl e \<Rightarrow> Inl e
      | Inr array \<Rightarrow> Inr (VArr array))"
| "encoding_decode P ObjectEncoding rest decode = ObjectEncoding_decode P decode rest"

lemma encoding_decode_cong [fundef_cong]:
  "\<lbrakk>rest = rest'; \<And>x. length x < length rest' \<Longrightarrow> f x = g x\<rbrakk>
   \<Longrightarrow> encoding_decode P enc rest f = encoding_decode P enc rest' g"
  using ArrayEncoding_decode_cong [of rest rest' f g]
    ObjectEncoding_decode_cong [of rest rest' f g P]
  by (cases enc) simp_all

text \<open>
  \<open>Codec.decode\<close>: of the empty string \<open>value[0]\<close> is \<open>undefined\<close>, which is no
  prefix of the registry.
\<close>

function Codec_decode :: "'n prims \<Rightarrow> jstring \<Rightarrow> error + 'n val" where
  "Codec_decode P value =
     (case value of
        [] \<Rightarrow> Inl MissingEncoding
      | prefix # rest \<Rightarrow>
          (case find (\<lambda>(prefixByte, encoding). prefixByte = prefix) jsonCodec of
             None \<Rightarrow> Inl MissingEncoding
           | Some (prefixByte, encoding) \<Rightarrow> encoding_decode P encoding rest (Codec_decode P)))"
  by pat_completeness auto
termination
  by (relation "measure (\<lambda>(P, value). length value)") auto

declare Codec_decode.simps [simp del]

text \<open>
  \<open>encoding.compare(a, b, this.compare)\<close>, on two values the encoding matches: the
  \<open>TypeError\<close> branches are never reached from the codec.
\<close>

definition encoding_compare ::
  "encoding \<Rightarrow> ('n::ord) val \<Rightarrow> 'n val \<Rightarrow> ('n val \<Rightarrow> 'n val \<Rightarrow> error + int) \<Rightarrow> error + int" where
  "encoding_compare encoding a b cmp =
     (case encoding of
        NullEncoding \<Rightarrow> Inr 0
      | MinEncoding \<Rightarrow> Inr 0
      | MaxEncoding \<Rightarrow> Inr 0
      | BooleanEncoding \<Rightarrow>
          (case a of VBool x \<Rightarrow> (case b of VBool y \<Rightarrow> Inr (compare x y) | _ \<Rightarrow> Inl TypeError)
           | _ \<Rightarrow> Inl TypeError)
      | StringEncoding \<Rightarrow>
          (case a of VStr x \<Rightarrow> (case b of VStr y \<Rightarrow> Inr (compare x y) | _ \<Rightarrow> Inl TypeError)
           | _ \<Rightarrow> Inl TypeError)
      | NumberEncoding \<Rightarrow>
          (case a of VNum x \<Rightarrow> (case b of VNum y \<Rightarrow> Inr (compare x y) | _ \<Rightarrow> Inl TypeError)
           | _ \<Rightarrow> Inl TypeError)
      | ArrayEncoding \<Rightarrow>
          (case a of VArr x \<Rightarrow> (case b of VArr y \<Rightarrow> ArrayEncoding_compare cmp x y | _ \<Rightarrow> Inl TypeError)
           | _ \<Rightarrow> Inl TypeError)
      | ObjectEncoding \<Rightarrow>
          (case a of VObj x \<Rightarrow> (case b of VObj y \<Rightarrow> ObjectEncoding_compare cmp x y | _ \<Rightarrow> Inl TypeError)
           | _ \<Rightarrow> Inl TypeError))"

lemma encoding_compare_cong [fundef_cong]:
  "\<lbrakk>a = a'; b = b'; \<And>x y. size x < size a' \<Longrightarrow> f x y = g x y\<rbrakk>
   \<Longrightarrow> encoding_compare enc a b f = encoding_compare enc a' b' g"
  unfolding encoding_compare_def
  by (auto split: encoding.splits val.splits
           intro!: ArrayEncoding_compare_cong ObjectEncoding_compare_cong
           dest: size_element size_entry)

text \<open>
  \<open>a === b\<close>. Primitives and symbols are compared by value. Two arrays or objects are
  the same only when they are one reference: the model's values carry no reference and
  stand for distinct ones; on one and the same reference the source returns 0 at once,
  which is also what the comparison below returns on equal values
  (\<open>Codec_compare_same\<close>). Of two different numbers \<open>===\<close> holds for \<open>0\<close> and \<open>-0\<close>
  only; there the source returns 0 at once, and so does the comparison below, by
  \<open>NumberEncoding.compare\<close>, since neither zero is below the other.
\<close>

fun strict_equal :: "'n val \<Rightarrow> 'n val \<Rightarrow> bool" where
  "strict_equal (VArr a) b = False"
| "strict_equal (VObj a) b = False"
| "strict_equal a b = (a = b)"

text \<open>
  \<open>Codec.compare\<close>. The loop finds the first encoding that matches \<open>a\<close> and the
  first that matches \<open>b\<close>, and a missing one for \<open>a\<close> is reported before a missing
  one for \<open>b\<close>. A prefix is a string of one unit, so the comparison of two prefixes
  is the comparison of the units.
\<close>

function Codec_compare :: "('n::ord) val \<Rightarrow> 'n val \<Rightarrow> error + int" where
  "Codec_compare a b =
     (if strict_equal a b then Inr 0
      else
        (case find (\<lambda>(prefix, encoding). match encoding a) jsonCodec of
           None \<Rightarrow> Inl MissingEncoding
         | Some ae \<Rightarrow>
             (case find (\<lambda>(prefix, encoding). match encoding b) jsonCodec of
                None \<Rightarrow> Inl MissingEncoding
              | Some be \<Rightarrow>
                  if fst ae \<noteq> fst be then Inr (compare (fst ae) (fst be))
                  else encoding_compare (snd ae) a b Codec_compare)))"
  by pat_completeness auto
termination
  by (relation "measure (\<lambda>(a, b). size a)") auto

declare Codec_compare.simps [simp del]

section \<open>The codec on each kind of value\<close>

lemma find_match:
  "find (\<lambda>(prefix, encoding). match encoding v) jsonCodec =
     (case v of
        VNull \<Rightarrow> Some (0x62, NullEncoding)
      | VBool b \<Rightarrow> Some (0x67, BooleanEncoding)
      | VNum x \<Rightarrow> Some (0x65, NumberEncoding)
      | VStr s \<Rightarrow> Some (0x66, StringEncoding)
      | VArr array \<Rightarrow> Some (0x64, ArrayEncoding)
      | VObj entries \<Rightarrow> Some (0x63, ObjectEncoding)
      | VMin \<Rightarrow> Some (0x00, MinEncoding)
      | VMax \<Rightarrow> Some (0xff, MaxEncoding)
      | VUndefined \<Rightarrow> None)"
  by (cases v) (auto simp: jsonCodec_def)

lemma Codec_encode_simps [simp]:
  "Codec_encode P VNull = Inr [0x62]"
  "Codec_encode P (VBool b) = Inr (0x67 # (if b then str ''true'' else str ''false''))"
  "Codec_encode P (VNum x) = Inr (0x65 # elen_encode P x)"
  "Codec_encode P (VStr s) = Inr (0x66 # s)"
  "Codec_encode P (VArr array) =
     (case ArrayEncoding_encode (Codec_encode P) array of
        Inl e \<Rightarrow> Inl e | Inr body \<Rightarrow> Inr (0x64 # body))"
  "Codec_encode P (VObj entries) =
     (case ObjectEncoding_encode (Codec_encode P) entries of
        Inl e \<Rightarrow> Inl e | Inr body \<Rightarrow> Inr (0x63 # body))"
  "Codec_encode P VMin = Inr [0x00]"
  "Codec_encode P VMax = Inr [0xff]"
  "Codec_encode P VUndefined = Inl MissingEncoding"
  by (simp_all add: Codec_encode.simps [of P] find_match)

lemma str_simps [simp]:
  "str [] = []"
  "str (c # s) = of_nat (of_char c) # str s"
  by (simp_all add: str_def)

lemma replace_unit_simps [simp]:
  "replace_unit c r [] = []"
  "replace_unit c r (x # s) = (if x = c then r else [x]) @ replace_unit c r s"
  by (simp_all add: replace_unit_def)

section \<open>Concrete encodings\<close>

text \<open>
  C9. The default codec writes \<open>null\<close> as \<open>b\<close>, \<open>true\<close> as \<open>gtrue\<close>, the string
  \<open>hello world\<close> as \<open>fhello world\<close>, the array of \<open>chet\<close> and \<open>corcos\<close> as \<open>d\<close>,
  \<open>fchet\<close>, 00, \<open>fcorcos\<close>, 00, and the object with the one entry \<open>date\<close>,
  \<open>2020-03-10\<close> as \<open>c\<close>, \<open>fdate\<close>, 00, \<open>f2020-03-10\<close>, 00 (the flat form).
\<close>

theorem jsonCodec_examples:
  "Codec_encode P VNull = Inr (str ''b'')
   \<and> Codec_encode P (VBool True) = Inr (str ''gtrue'')
   \<and> Codec_encode P (VStr (str ''hello world'')) = Inr (str ''fhello world'')
   \<and> Codec_encode P (VArr [VStr (str ''chet''), VStr (str ''corcos'')])
       = Inr (str ''d'' @ str ''fchet'' @ [0] @ str ''fcorcos'' @ [0])
   \<and> Codec_encode P (VObj [(str ''date'', VStr (str ''2020-03-10''))])
       = Inr (str ''c'' @ str ''fdate'' @ [0] @ str ''f2020-03-10'' @ [0])"
  by (simp add: escape_def ObjectEncoding_encode_def sorted_entries_def)

section \<open>The sentinels\<close>

text \<open>
  C6. \<open>MIN\<close> compares below and \<open>MAX\<close> above every value that is neither a sentinel
  nor \<open>undefined\<close>: \<open>compare(MIN, v) = -1\<close> and \<open>compare(MAX, v) = 1\<close>. Only the
  prefixes are compared, so nothing is asked of what an array or object contains.
\<close>

theorem sentinel_bounds:
  "v \<noteq> VMin \<Longrightarrow> v \<noteq> VMax \<Longrightarrow> v \<noteq> VUndefined
   \<Longrightarrow> Codec_compare VMin v = Inr (- 1) \<and> Codec_compare VMax v = Inr 1"
  by (cases v)
     (simp_all add: Codec_compare.simps [of VMin] Codec_compare.simps [of VMax]
        find_match compare_def)

theorem sentinel_bounds_witness:
  "Codec_compare VMin (VObj [(str ''a'', VArr [VNum (1::nat), VNull])]) = Inr (- 1)
   \<and> Codec_compare VMax (VObj [(str ''a'', VArr [VNum (1::nat), VNull])]) = Inr 1"
  using sentinel_bounds [of "VObj [(str ''a'', VArr [VNum (1::nat), VNull])]"] by simp

section \<open>The array comparator\<close>

lemma compare_loop_end: "compare_loop cmp a b len len = Inr (compare (length a) (length b))"
  by (simp add: compare_loop.simps [of cmp a b len len])

lemma compare_loop_step:
  "i < len \<Longrightarrow> compare_loop cmp a b len i =
     (case cmp (a ! i) (b ! i) of
        Inl e \<Rightarrow> Inl e
      | Inr dir \<Rightarrow> if dir \<noteq> 0 then Inr dir else compare_loop cmp a b len (Suc i))"
  by (simp add: compare_loop.simps [of cmp a b len i] split: sum.splits)

lemma compare_loop_skip:
  "\<lbrakk>i \<le> k; k \<le> len; \<And>j. i \<le> j \<Longrightarrow> j < k \<Longrightarrow> cmp (a ! j) (b ! j) = Inr 0\<rbrakk>
   \<Longrightarrow> compare_loop cmp a b len i = compare_loop cmp a b len k"
proof (induction "k - i" arbitrary: i)
  case 0
  then show ?case by simp
next
  case (Suc n)
  then have lt: "i < k" "i < len" by simp_all
  have "compare_loop cmp a b len (Suc i) = compare_loop cmp a b len k"
    using Suc lt by (intro Suc(1)) simp_all
  then show ?case
    using Suc(5) [of i] lt by (simp add: compare_loop_step split: sum.splits)
qed

lemma compare_Suc [simp]: "compare (Suc m) (Suc n) = compare m n"
  by (simp add: compare_def)

lemma compare_same [simp]: "compare (x::'a::preorder) x = 0"
  by (simp add: compare_def)

lemma compare_loop_Cons:
  "i \<le> len \<Longrightarrow>
   compare_loop cmp (x # a) (y # b) (Suc len) (Suc i) = compare_loop cmp a b len i"
proof (induction "len - i" arbitrary: i)
  case 0
  then have "i = len" by simp
  then show ?case by (simp add: compare_loop_end)
next
  case (Suc n)
  then have lt: "i < len" by simp
  have "compare_loop cmp (x # a) (y # b) (Suc len) (Suc (Suc i)) = compare_loop cmp a b len (Suc i)"
    using Suc lt by (intro Suc(1)) simp_all
  then show ?case
    using lt by (simp add: compare_loop_step split: sum.splits)
qed

lemma ArrayEncoding_compare_simps [simp]:
  "ArrayEncoding_compare cmp [] b = Inr (compare 0 (length b))"
  "ArrayEncoding_compare cmp a [] = Inr (compare (length a) 0)"
  "ArrayEncoding_compare cmp (x # a) (y # b) =
     (case cmp x y of
        Inl e \<Rightarrow> Inl e
      | Inr dir \<Rightarrow> if dir \<noteq> 0 then Inr dir else ArrayEncoding_compare cmp a b)"
  by (simp_all add: ArrayEncoding_compare_def compare_loop_end compare_loop_step
      compare_loop_Cons split: sum.splits)

lemma Codec_compare_VArr:
  "Codec_compare (VArr a) (VArr b) = ArrayEncoding_compare Codec_compare a b"
  by (simp add: Codec_compare.simps [of "VArr a"] find_match encoding_compare_def)

text \<open>
  C3. \<open>ArrayEncoding.compare\<close> returns the first result that is not 0 among the
  comparisons of \<open>a[i]\<close> and \<open>b[i]\<close>, \<open>i\<close> below the shorter length; when all of them
  are 0 it returns the comparison of the two lengths: 0 for equal lengths, and -1 when
  \<open>a\<close> is a proper prefix of \<open>b\<close> (the elements of \<open>a\<close> comparing 0 with themselves).
  The codec compares two arrays by this comparator, with itself for the elements.
\<close>

theorem array_compare_first_difference:
  "(\<forall>i d. i < min (length a) (length b) \<and> (\<forall>j<i. cmp (a ! j) (b ! j) = Inr 0)
       \<and> cmp (a ! i) (b ! i) = Inr d \<and> d \<noteq> 0
       \<longrightarrow> ArrayEncoding_compare cmp a b = Inr d)
   \<and> ((\<forall>j < min (length a) (length b). cmp (a ! j) (b ! j) = Inr 0)
       \<longrightarrow> ArrayEncoding_compare cmp a b = Inr (compare (length a) (length b)))
   \<and> ((\<forall>j < length a. cmp (a ! j) (b ! j) = Inr 0) \<and> length a = length b
       \<longrightarrow> ArrayEncoding_compare cmp a b = Inr 0)
   \<and> ((\<forall>x \<in> set a. cmp x x = Inr 0) \<and> c \<noteq> []
       \<longrightarrow> ArrayEncoding_compare cmp a (a @ c) = Inr (- 1))
   \<and> Codec_compare (VArr a) (VArr b) = ArrayEncoding_compare Codec_compare a b"
proof (intro conjI allI impI)
  fix i d
  assume h: "i < min (length a) (length b) \<and> (\<forall>j<i. cmp (a ! j) (b ! j) = Inr 0)
       \<and> cmp (a ! i) (b ! i) = Inr d \<and> d \<noteq> 0"
  have "compare_loop cmp a b (min (length a) (length b)) 0
      = compare_loop cmp a b (min (length a) (length b)) i"
    using h by (intro compare_loop_skip) simp_all
  also have "\<dots> = Inr d"
    using h by (simp add: compare_loop_step)
  finally show "ArrayEncoding_compare cmp a b = Inr d"
    by (simp add: ArrayEncoding_compare_def)
next
  assume h: "\<forall>j < min (length a) (length b). cmp (a ! j) (b ! j) = Inr 0"
  have "compare_loop cmp a b (min (length a) (length b)) 0
      = compare_loop cmp a b (min (length a) (length b)) (min (length a) (length b))"
    using h by (intro compare_loop_skip) simp_all
  then show "ArrayEncoding_compare cmp a b = Inr (compare (length a) (length b))"
    by (simp add: ArrayEncoding_compare_def compare_loop_end)
next
  assume h: "(\<forall>j < length a. cmp (a ! j) (b ! j) = Inr 0) \<and> length a = length b"
  have "compare_loop cmp a b (min (length a) (length b)) 0
      = compare_loop cmp a b (min (length a) (length b)) (min (length a) (length b))"
    using h by (intro compare_loop_skip) simp_all
  then show "ArrayEncoding_compare cmp a b = Inr 0"
    using h by (simp add: ArrayEncoding_compare_def compare_loop_end)
next
  assume h: "(\<forall>x \<in> set a. cmp x x = Inr 0) \<and> c \<noteq> []"
  have "compare_loop cmp a (a @ c) (min (length a) (length (a @ c))) 0
      = compare_loop cmp a (a @ c) (min (length a) (length (a @ c))) (min (length a) (length (a @ c)))"
    using h by (intro compare_loop_skip) (simp_all add: nth_append)
  then show "ArrayEncoding_compare cmp a (a @ c) = Inr (- 1)"
    using h by (simp add: ArrayEncoding_compare_def compare_loop_end compare_def)
next
  show "Codec_compare (VArr a) (VArr b) = ArrayEncoding_compare Codec_compare a b"
    by (rule Codec_compare_VArr)
qed

section \<open>Order of the escaped frames\<close>

lemma unit_gt_1: "x \<noteq> 0 \<Longrightarrow> x \<noteq> 1 \<Longrightarrow> (1::unit16) < x"
  by (metis word_less_1 linorder_less_linear)

lemma unit_gt_0: "x \<noteq> 0 \<Longrightarrow> (0::unit16) < x"
  by (metis word_gt_0)

lemma append_less_cancel: "(u @ s < u @ t) = (s < (t::'a::linorder list))"
  by (induction u) simp_all

definition esc_unit :: "unit16 \<Rightarrow> jstring" where
  "esc_unit c = (if c = 0 then [1, 0] else if c = 1 then [1, 1] else [c])"

lemma escape_Nil [simp]: "escape [] = []"
  by (simp add: escape_def)

lemma replace_unit_append:
  "replace_unit c r (s @ t) = replace_unit c r s @ replace_unit c r t"
  by (simp add: replace_unit_def)

lemma escape_Cons: "escape (c # s) = esc_unit c @ escape s"
  by (simp add: escape_def esc_unit_def replace_unit_append)

lemma escape_append: "escape (s @ t) = escape s @ escape t"
  by (induction s) (simp_all add: escape_Cons)

lemma esc_unit_less:
  "a < b \<Longrightarrow> esc_unit a @ s < esc_unit b @ t"
proof -
  assume ab: "a < b"
  then have b0: "b \<noteq> 0"
    by (metis not_less_iff_gr_or_eq unit_gt_0 not_less0 word_not_simps(1))
  show ?thesis
  proof (cases "a = 0")
    case True
    then show ?thesis
      using b0 unit_gt_1 [of b] by (auto simp: esc_unit_def)
  next
    case a0: False
    show ?thesis
    proof (cases "a = 1")
      case True
      then have "b \<noteq> 1" using ab by auto
      then show ?thesis
        using True b0 unit_gt_1 [of b] by (auto simp: esc_unit_def)
    next
      case False
      have "1 < a" using a0 False by (rule unit_gt_1)
      then have "b \<noteq> 1" using ab by auto
      then show ?thesis
        using a0 False b0 ab by (auto simp: esc_unit_def)
    qed
  qed
qed

lemma esc_unit_head: "\<exists>h t. esc_unit c = h # t \<and> 0 < h"
  by (auto simp: esc_unit_def unit_gt_0)

lemma frame_less:
  "x < y \<Longrightarrow> escape x @ 0 # r1 < escape y @ 0 # r2"
proof (induction x arbitrary: y)
  case Nil
  then obtain c y' where y: "y = c # y'" by (cases y) auto
  obtain h t where "esc_unit c = h # t" "0 < h"
    using esc_unit_head by blast
  then show ?case
    by (simp add: y escape_Cons)
next
  case (Cons a x)
  then obtain b y' where y: "y = b # y'" by (cases y) auto
  from Cons.prems y consider "a < b" | "a = b" "x < y'" by auto
  then show ?case
  proof cases
    case 1
    then show ?thesis
      using esc_unit_less [of a b "escape x @ 0 # r1" "escape y' @ 0 # r2"]
      by (simp add: y escape_Cons)
  next
    case 2
    then show ?thesis
      using Cons.IH [of y'] by (simp add: y escape_Cons append_less_cancel)
  qed
qed

section \<open>The primitive comparison\<close>

lemma compare_lt: "a < b \<Longrightarrow> compare a (b::'a::linorder) = - 1"
  by (auto simp: compare_def)

lemma compare_gt: "b < a \<Longrightarrow> compare a (b::'a::linorder) = 1"
  by (auto simp: compare_def)

lemma compare_cases:
  obtains (less) "a < b" "compare a b = - 1"
        | (equal) "a = (b::'a::linorder)" "compare a b = 0"
        | (greater) "b < a" "compare a b = 1"
  using compare_lt [of a b] compare_gt [of b a] compare_same [of a]
  by (metis linorder_less_linear)

lemma compare_Cons_same: "compare (p # s) (p # t) = compare s (t::'a::linorder list)"
  by (simp add: compare_def)

lemma compare_Cons_diff: "p \<noteq> q \<Longrightarrow> compare (p # s) (q # t) = compare p (q::'a::linorder)"
  by (auto simp: compare_def)

lemma compare_append_same: "compare (u @ s) (u @ t) = compare s (t::'a::linorder list)"
  by (simp add: compare_def append_less_cancel)

lemma compare_frames:
  "x < y \<Longrightarrow> compare (escape x @ 0 # r1) (escape y @ 0 # r2) = - 1"
  "y < x \<Longrightarrow> compare (escape x @ 0 # r1) (escape y @ 0 # r2) = 1"
  using frame_less [of x y r1 r2] frame_less [of y x r2 r1]
  by (simp_all add: compare_lt compare_gt)

lemma compare_mono:
  fixes f :: "'a::linorder \<Rightarrow> 'b::linorder"
  assumes "\<And>x y. x < y \<Longrightarrow> f x < f y"
  shows "compare (f x) (f y) = compare x y"
proof (cases x y rule: compare_cases)
  case less
  then show ?thesis using assms [of x y] by (simp add: compare_lt)
next
  case equal
  then show ?thesis by simp
next
  case greater
  then show ?thesis using assms [of y x] by (simp add: compare_gt)
qed

section \<open>Arrays whose elements compare as their encodings do\<close>

lemma Nil_less_iff [simp]: "([] < xs) = (xs \<noteq> ([]::'a::linorder list))"
  by (cases xs) simp_all

lemma compare_Nil_left: "b \<noteq> [] \<Longrightarrow> compare [] (b::'a::linorder list) = - 1"
  by (simp add: compare_lt)

lemma compare_Nil_right: "b \<noteq> [] \<Longrightarrow> compare (b::'a::linorder list) [] = 1"
  by (simp add: compare_gt)

lemma compare_0_Suc [simp]: "compare 0 (Suc n) = - 1" "compare (Suc n) 0 = 1"
  by (simp_all add: compare_def)

lemma ArrayEncoding_encode_all:
  "(\<And>x. x \<in> set xs \<Longrightarrow> \<exists>e. enc x = Inr e) \<Longrightarrow> \<exists>b. ArrayEncoding_encode enc xs = Inr b"
proof (induction xs)
  case Nil
  then show ?case by simp
next
  case (Cons x xs)
  obtain e where "enc x = Inr e" using Cons.prems by auto
  moreover obtain b where "ArrayEncoding_encode enc xs = Inr b"
    using Cons by auto
  ultimately show ?case by simp
qed

lemma ArrayEncoding_encode_Cons_Inr:
  "ArrayEncoding_encode enc (x # xs) = Inr b \<Longrightarrow>
   \<exists>e r. enc x = Inr e \<and> ArrayEncoding_encode enc xs = Inr r \<and> b = escape e @ 0 # r"
  by (auto split: sum.splits)

lemma ArrayEncoding_agree:
  assumes ex: "\<And>x. x \<in> set xs \<Longrightarrow> \<exists>e. enc x = Inr e"
      and ey: "\<And>y. y \<in> set ys \<Longrightarrow> \<exists>e. enc y = Inr e"
      and ag: "\<And>x y ex ey. x \<in> set xs \<Longrightarrow> y \<in> set ys \<Longrightarrow> enc x = Inr ex
                \<Longrightarrow> enc y = Inr ey \<Longrightarrow> cmp x y = Inr (compare ex ey)"
  shows "\<exists>bx by. ArrayEncoding_encode enc xs = Inr bx \<and> ArrayEncoding_encode enc ys = Inr by
           \<and> ArrayEncoding_compare cmp xs ys = Inr (compare bx by)"
  using assms
proof (induction xs arbitrary: ys)
  case Nil
  have "\<exists>b. ArrayEncoding_encode enc ys = Inr b"
    by (rule ArrayEncoding_encode_all) (rule Nil.prems(2))
  then obtain b where b: "ArrayEncoding_encode enc ys = Inr b" ..
  show ?case
  proof (cases ys)
    case Nil
    then show ?thesis by simp
  next
    case (Cons y ys')
    then have "b \<noteq> []"
      using b ArrayEncoding_encode_Cons_Inr [of enc y ys' b] by auto
    then show ?thesis
      using b Cons by (simp add: compare_Nil_left)
  qed
next
  case (Cons x xs)
  have "\<exists>b. ArrayEncoding_encode enc (x # xs) = Inr b"
    by (rule ArrayEncoding_encode_all) (rule Cons.prems(1))
  then obtain bx where bx: "ArrayEncoding_encode enc (x # xs) = Inr bx" ..
  obtain e r where e: "enc x = Inr e" and r: "ArrayEncoding_encode enc xs = Inr r"
    and bx_eq: "bx = escape e @ 0 # r"
    using ArrayEncoding_encode_Cons_Inr [OF bx] by blast
  show ?case
  proof (cases ys)
    case Nil
    then show ?thesis
      using bx bx_eq by (simp add: compare_Nil_right)
  next
    case ys: (Cons y ys')
    have "\<exists>b. ArrayEncoding_encode enc ys = Inr b"
      by (rule ArrayEncoding_encode_all) (rule Cons.prems(2))
    then obtain b where b: "ArrayEncoding_encode enc ys = Inr b" ..
    obtain e' r' where e': "enc y = Inr e'" and r': "ArrayEncoding_encode enc ys' = Inr r'"
      and b_eq: "b = escape e' @ 0 # r'"
      using ArrayEncoding_encode_Cons_Inr [OF b [unfolded ys]] by blast
    have c: "cmp x y = Inr (compare e e')"
      using Cons.prems(3) [of x y e e'] e e' ys by simp
    have "\<exists>bx by. ArrayEncoding_encode enc xs = Inr bx \<and> ArrayEncoding_encode enc ys' = Inr by
           \<and> ArrayEncoding_compare cmp xs ys' = Inr (compare bx by)"
    proof (rule Cons.IH)
      show "\<exists>e. enc x' = Inr e" if "x' \<in> set xs" for x'
        using that Cons.prems(1) [of x'] by simp
      show "\<exists>e. enc y' = Inr e" if "y' \<in> set ys'" for y'
        using that Cons.prems(2) [of y'] ys by simp
      show "cmp x' y' = Inr (compare ex ey)"
        if "x' \<in> set xs" "y' \<in> set ys'" "enc x' = Inr ex" "enc y' = Inr ey" for x' y' ex ey
        using that Cons.prems(3) [of x' y' ex ey] ys by simp
    qed
    then have IH: "ArrayEncoding_compare cmp xs ys' = Inr (compare r r')"
      using r r' by simp
    have enc_x: "ArrayEncoding_encode enc (x # xs) = Inr (escape e @ 0 # r)"
      using e r by simp
    have enc_y: "ArrayEncoding_encode enc ys = Inr (escape e' @ 0 # r')"
      using e' r' ys by simp
    have step: "ArrayEncoding_compare cmp (x # xs) ys =
        (if compare e e' \<noteq> 0 then Inr (compare e e') else Inr (compare r r'))"
      using c IH ys by simp
    have "ArrayEncoding_compare cmp (x # xs) ys
        = Inr (compare (escape e @ 0 # r) (escape e' @ 0 # r'))"
    proof (cases e e' rule: compare_cases)
      case less
      have cf: "compare (escape e @ 0 # r) (escape e' @ 0 # r') = - 1"
        using less(1) by (rule compare_frames(1))
      show ?thesis unfolding step less(2) cf by simp
    next
      case equal
      have cf: "compare (escape e @ 0 # r) (escape e' @ 0 # r') = compare r r'"
        using equal(1) compare_append_same [of "escape e @ [0]" r r'] by simp
      show ?thesis unfolding step equal(2) cf by simp
    next
      case greater
      have cf: "compare (escape e @ 0 # r) (escape e' @ 0 # r') = 1"
        using greater(1) by (rule compare_frames(2))
      show ?thesis unfolding step greater(2) cf by simp
    qed
    then show ?thesis
      using enc_x enc_y by simp
  qed
qed

definition prefix_of :: "'n val \<Rightarrow> unit16 option" where
  "prefix_of v = map_option fst (find (\<lambda>(prefix, encoding). match encoding v) jsonCodec)"

lemma prefix_of_simps [simp]:
  "prefix_of VNull = Some 0x62"
  "prefix_of (VBool b) = Some 0x67"
  "prefix_of (VNum x) = Some 0x65"
  "prefix_of (VStr s) = Some 0x66"
  "prefix_of (VArr array) = Some 0x64"
  "prefix_of (VObj entries) = Some 0x63"
  "prefix_of VMin = Some 0x00"
  "prefix_of VMax = Some 0xff"
  "prefix_of VUndefined = None"
  by (simp_all add: prefix_of_def find_match)

lemma Codec_encode_head:
  "Codec_encode P v = Inr e \<Longrightarrow> \<exists>p body. e = p # body \<and> prefix_of v = Some p"
  by (cases v) (auto split: sum.splits if_splits)

lemma strict_equal_eq: "strict_equal a b \<Longrightarrow> a = b"
  by (cases a) simp_all

lemma Codec_compare_diff:
  assumes pa: "prefix_of a = Some p" and pb: "prefix_of b = Some q" and pq: "p \<noteq> q"
  shows "Codec_compare a b = Inr (compare p q)"
proof -
  have ne: "\<not> strict_equal a b"
    using strict_equal_eq [of a b] pa pb pq by auto
  obtain ea where fa: "find (\<lambda>(prefix, encoding). match encoding a) jsonCodec = Some (p, ea)"
    using pa by (auto simp: prefix_of_def)
  obtain eb where fb: "find (\<lambda>(prefix, encoding). match encoding b) jsonCodec = Some (q, eb)"
    using pb by (auto simp: prefix_of_def)
  show ?thesis
    by (subst Codec_compare.simps) (simp add: ne fa fb pq)
qed

lemma Codec_compare_simps [simp]:
  "Codec_compare VNull VNull = Inr 0"
  "Codec_compare VMin VMin = Inr 0"
  "Codec_compare VMax VMax = Inr 0"
  "Codec_compare VUndefined VUndefined = Inr 0"
  "Codec_compare (VBool x) (VBool y) = Inr (compare x y)"
  "Codec_compare (VStr s) (VStr t) = Inr (compare s t)"
  "Codec_compare (VArr a) (VArr b) = ArrayEncoding_compare Codec_compare a b"
  "Codec_compare (VObj c) (VObj d) = ObjectEncoding_compare Codec_compare c d"
  by (auto simp: Codec_compare.simps [of VNull] Codec_compare.simps [of VMin]
      Codec_compare.simps [of VMax] Codec_compare.simps [of VUndefined]
      Codec_compare.simps [of "VBool x"] Codec_compare.simps [of "VStr s"]
      Codec_compare.simps [of "VArr a"]
      Codec_compare.simps [of "VObj c"] find_match encoding_compare_def)

lemma Codec_compare_VNum_same [simp]: "Codec_compare (VNum n) (VNum n) = Inr 0"
  by (simp add: Codec_compare.simps [of "VNum n"])

lemma Codec_compare_VNum_other:
  "n \<noteq> m \<Longrightarrow> Codec_compare (VNum n) (VNum m) = Inr (compare n m)"
  by (simp add: Codec_compare.simps [of "VNum n"] find_match encoding_compare_def)

lemma Codec_compare_VNum [simp]:
  "Codec_compare (VNum n) (VNum (m::'n::linorder)) = Inr (compare n m)"
  by (cases "n = m") (simp_all add: Codec_compare_VNum_other)

theorem array_compare_first_difference_witness:
  "Codec_compare (VStr (str ''jon'') :: nat val) (VStr (str ''jonathan'')) = Inr (- 1)
   \<and> ArrayEncoding_compare Codec_compare
         [VStr (str ''jon'') :: nat val, VStr (str ''smith'')]
         [VStr (str ''jonathan''), VStr (str ''smith'')] = Inr (- 1)"
proof -
  let ?a = "[VStr (str ''jon'') :: nat val, VStr (str ''smith'')]"
  let ?b = "[VStr (str ''jonathan'') :: nat val, VStr (str ''smith'')]"
  have c: "Codec_compare (VStr (str ''jon'') :: nat val) (VStr (str ''jonathan'')) = Inr (- 1)"
    by (simp add: compare_def)
  have h: "(0::nat) < min (length ?a) (length ?b)
      \<and> (\<forall>j<0. Codec_compare (?a ! j) (?b ! j) = Inr 0)
      \<and> Codec_compare (?a ! 0) (?b ! 0) = Inr (- 1) \<and> (- 1 :: int) \<noteq> 0"
    using c by simp
  have "ArrayEncoding_compare Codec_compare ?a ?b = Inr (- 1)"
    using array_compare_first_difference [of ?a ?b Codec_compare "[]"] h by blast
  then show ?thesis
    using c by simp
qed

section \<open>The object comparator as the array comparator of the flat form\<close>

lemma object_compare_loop_end:
  "object_compare_loop cmp ae be len len = Inr (compare (length ae) (length be))"
  by (simp add: object_compare_loop.simps [of cmp ae be len len])

lemma object_compare_loop_step:
  "i < len \<Longrightarrow> object_compare_loop cmp ae be len i =
     (if compare (fst (ae ! i)) (fst (be ! i)) \<noteq> 0
      then Inr (compare (fst (ae ! i)) (fst (be ! i)))
      else (case cmp (snd (ae ! i)) (snd (be ! i)) of
              Inl e \<Rightarrow> Inl e
            | Inr dir2 \<Rightarrow>
                if dir2 \<noteq> 0 then Inr dir2 else object_compare_loop cmp ae be len (Suc i)))"
  by (simp add: object_compare_loop.simps [of cmp ae be len i] Let_def
      split: sum.splits prod.splits)

lemma object_compare_loop_Cons:
  "i \<le> len \<Longrightarrow>
   object_compare_loop cmp (x # ae) (y # be) (Suc len) (Suc i)
   = object_compare_loop cmp ae be len i"
proof (induction "len - i" arbitrary: i)
  case 0
  then have "i = len" by simp
  then show ?case by (simp add: object_compare_loop_end)
next
  case (Suc n)
  then have lt: "i < len" by simp
  have "object_compare_loop cmp (x # ae) (y # be) (Suc len) (Suc (Suc i))
      = object_compare_loop cmp ae be len (Suc i)"
    using Suc lt by (intro Suc(1)) simp_all
  then show ?case
    using lt by (simp add: object_compare_loop_step split: sum.splits)
qed

definition items_of :: "(jstring \<times> 'n val) list \<Rightarrow> 'n val list" where
  "items_of entries = flatten (map (\<lambda>(k, v). [VStr k, v]) entries)"

lemma items_of_simps [simp]:
  "items_of [] = []"
  "items_of ((k, v) # entries) = VStr k # v # items_of entries"
  by (simp_all add: items_of_def)

lemma object_loop_as_array:
  assumes key: "\<And>k k'. cmp (VStr k) (VStr k') = Inr (compare k k')"
  shows "object_compare_loop cmp ae be (min (length ae) (length be)) 0
         = ArrayEncoding_compare cmp (items_of ae) (items_of be)"
proof (induction ae arbitrary: be)
  case Nil
  show ?case
    by (cases be) (auto simp: object_compare_loop_end)
next
  case (Cons a ae)
  obtain ak av where a: "a = (ak, av)" by (cases a)
  show ?case
  proof (cases be)
    case Nil
    then show ?thesis by (simp add: object_compare_loop_end a)
  next
    case (Cons b be')
    obtain bk bv where b: "b = (bk, bv)" by (cases b)
    show ?thesis
      using Cons.IH [of be']
      by (simp add: Cons a b object_compare_loop_step object_compare_loop_Cons key
          split: sum.splits)
  qed
qed

lemma ObjectEncoding_compare_as_array:
  assumes "\<And>k k'. cmp (VStr k) (VStr k') = Inr (compare k k')"
  shows "ObjectEncoding_compare cmp a b
         = ArrayEncoding_compare cmp (items_of (sorted_entries a)) (items_of (sorted_entries b))"
  unfolding ObjectEncoding_compare_def Let_def
  by (rule object_loop_as_array) (rule assms)

lemma ObjectEncoding_encode_items:
  "ObjectEncoding_encode enc a = ArrayEncoding_encode enc (items_of (sorted_entries a))"
  by (simp add: ObjectEncoding_encode_def items_of_def)

section \<open>Order agreement\<close>

text \<open>
  The values the default codec represents: \<open>undefined\<close> occurs nowhere in them, and
  the keys of an object are pairwise distinct.
\<close>

fun representable :: "'n val \<Rightarrow> bool" where
  "representable VUndefined = False"
| "representable (VArr array) = list_all representable array"
| "representable (VObj entries) =
     (distinct (map fst entries) \<and> list_all (\<lambda>(k, v). representable v) entries)"
| "representable v = True"

text \<open>The contract of \<open>elen.encode\<close>: a smaller number has a smaller encoding.\<close>

definition elen_monotone :: "('n::ord) prims \<Rightarrow> bool" where
  "elen_monotone P = (\<forall>x y. x < y \<longrightarrow> elen_encode P x < elen_encode P y)"

lemma ArrayEncoding_encode_Inr_elem:
  "ArrayEncoding_encode enc xs = Inr b \<Longrightarrow> x \<in> set xs \<Longrightarrow> \<exists>e. enc x = Inr e"
  by (induction xs arbitrary: b) (auto split: sum.splits)

lemma agree_diff:
  assumes "Codec_encode P a = Inr ea" "Codec_encode P b = Inr eb" "prefix_of a \<noteq> prefix_of b"
  shows "Codec_compare a b = Inr (compare ea eb)"
proof -
  obtain p s where a: "ea = p # s" "prefix_of a = Some p"
    using Codec_encode_head [OF assms(1)] by blast
  obtain q t where b: "eb = q # t" "prefix_of b = Some q"
    using Codec_encode_head [OF assms(2)] by blast
  have "p \<noteq> q" using a b assms(3) by simp
  then show ?thesis
    using Codec_compare_diff [OF a(2) b(2)] a(1) b(1) by (simp add: compare_Cons_diff)
qed

lemma agree_arrays:
  assumes IH: "\<And>x y ex ey. x \<in> set xs \<Longrightarrow> Codec_encode P x = Inr ex
                 \<Longrightarrow> Codec_encode P y = Inr ey \<Longrightarrow> Codec_compare x y = Inr (compare ex ey)"
      and bx: "ArrayEncoding_encode (Codec_encode P) xs = Inr bx"
      and "by": "ArrayEncoding_encode (Codec_encode P) ys = Inr by"
  shows "ArrayEncoding_compare Codec_compare xs ys = Inr (compare bx by)"
proof -
  have "\<exists>bx by. ArrayEncoding_encode (Codec_encode P) xs = Inr bx
          \<and> ArrayEncoding_encode (Codec_encode P) ys = Inr by
          \<and> ArrayEncoding_compare Codec_compare xs ys = Inr (compare bx by)"
  proof (rule ArrayEncoding_agree)
    show "\<exists>e. Codec_encode P x = Inr e" if "x \<in> set xs" for x
      using that bx by (rule ArrayEncoding_encode_Inr_elem [rotated])
    show "\<exists>e. Codec_encode P y = Inr e" if "y \<in> set ys" for y
      using that "by" by (rule ArrayEncoding_encode_Inr_elem [rotated])
    show "Codec_compare x y = Inr (compare ex ey)"
      if "x \<in> set xs" "y \<in> set ys" "Codec_encode P x = Inr ex" "Codec_encode P y = Inr ey"
      for x y ex ey
      using that IH by blast
  qed
  then show ?thesis
    using bx "by" by simp
qed

lemma agree_VStr:
  "Codec_encode P (VStr s) = Inr ex \<Longrightarrow> Codec_encode P y = Inr ey
   \<Longrightarrow> Codec_compare (VStr s) y = Inr (compare ex ey)"
proof (cases "prefix_of (VStr s :: 'a val) = prefix_of y")
  case False
  assume "Codec_encode P (VStr s) = Inr ex" "Codec_encode P y = Inr ey"
  then show ?thesis using False by (rule agree_diff)
next
  case True
  assume "Codec_encode P (VStr s) = Inr ex" "Codec_encode P y = Inr ey"
  then show ?thesis
    using True by (cases y) (auto simp: compare_Cons_same)
qed

lemma items_of_set:
  "x \<in> set (items_of es) \<Longrightarrow> (\<exists>k. x = VStr k) \<or> (\<exists>k. (k, x) \<in> set es)"
  by (induction es) auto

lemma compare_bool_encoding:
  "compare (if x then str ''true'' else str ''false'') (if y then str ''true'' else str ''false'')
   = compare x y"
  by (cases x; cases y) (simp_all add: compare_def)

lemma agree:
  fixes P :: "('n::linorder) prims"
  assumes mono: "elen_monotone P"
  shows "Codec_encode P a = Inr ea \<Longrightarrow> Codec_encode P b = Inr eb
         \<Longrightarrow> Codec_compare a b = Inr (compare ea eb)"
proof (induction a arbitrary: b ea eb)
  case VNull
  show ?case
  proof (cases "prefix_of (VNull :: 'n val) = prefix_of b")
    case False
    with VNull show ?thesis by (intro agree_diff)
  next
    case True
    with VNull show ?thesis by (cases b) auto
  qed
next
  case (VBool x)
  show ?case
  proof (cases "prefix_of (VBool x :: 'n val) = prefix_of b")
    case False
    with VBool show ?thesis by (intro agree_diff)
  next
    case True
    with VBool show ?thesis
      by (cases b) (auto simp: compare_Cons_same compare_bool_encoding)
  qed
next
  case (VNum x)
  have m: "\<And>u v. u < v \<Longrightarrow> elen_encode P u < elen_encode P v"
    using mono by (simp add: elen_monotone_def)
  show ?case
  proof (cases "prefix_of (VNum x) = prefix_of b")
    case False
    with VNum show ?thesis by (intro agree_diff)
  next
    case True
    with VNum show ?thesis
      by (cases b) (auto simp: compare_Cons_same compare_mono [of "elen_encode P", OF m])
  qed
next
  case (VStr s)
  then show ?case by (rule agree_VStr)
next
  case (VArr xs)
  show ?case
  proof (cases "prefix_of (VArr xs) = prefix_of b")
    case False
    with VArr.prems show ?thesis by (intro agree_diff)
  next
    case True
    then obtain ys where b: "b = VArr ys" by (cases b) auto
    obtain bx where bx: "ArrayEncoding_encode (Codec_encode P) xs = Inr bx" "ea = 0x64 # bx"
      using VArr.prems(1) by (auto split: sum.splits)
    obtain "by" where "by": "ArrayEncoding_encode (Codec_encode P) ys = Inr by" "eb = 0x64 # by"
      using VArr.prems(2) b by (auto split: sum.splits)
    have "ArrayEncoding_compare Codec_compare xs ys = Inr (compare bx by)"
      using VArr.IH bx(1) "by"(1) by (intro agree_arrays) auto
    then show ?thesis
      by (simp add: b bx(2) "by"(2) compare_Cons_same)
  qed
next
  case (VObj c)
  show ?case
  proof (cases "prefix_of (VObj c) = prefix_of b")
    case False
    with VObj.prems show ?thesis by (intro agree_diff)
  next
    case True
    then obtain d where b: "b = VObj d" by (cases b) auto
    obtain bx where bx: "ArrayEncoding_encode (Codec_encode P) (items_of (sorted_entries c)) = Inr bx"
        "ea = 0x63 # bx"
      using VObj.prems(1) by (auto simp: ObjectEncoding_encode_items split: sum.splits)
    obtain "by" where "by": "ArrayEncoding_encode (Codec_encode P) (items_of (sorted_entries d)) = Inr by"
        "eb = 0x63 # by"
      using VObj.prems(2) b by (auto simp: ObjectEncoding_encode_items split: sum.splits)
    have "ArrayEncoding_compare Codec_compare (items_of (sorted_entries c)) (items_of (sorted_entries d))
        = Inr (compare bx by)"
    proof (rule agree_arrays [OF _ bx(1) "by"(1)])
      fix x y ex ey
      assume x: "x \<in> set (items_of (sorted_entries c))"
        and e: "Codec_encode P x = Inr ex" "Codec_encode P y = Inr ey"
      from items_of_set [OF x] show "Codec_compare x y = Inr (compare ex ey)"
      proof
        assume "\<exists>k. x = VStr k"
        then show ?thesis using e agree_VStr by blast
      next
        assume "\<exists>k. (k, x) \<in> set (sorted_entries c)"
        then obtain k where "(k, x) \<in> set c" by (auto simp: sorted_entries_def)
        then show ?thesis using VObj.IH [of "(k, x)" x] e by simp
      qed
    qed
    then show ?thesis
      by (simp add: b bx(2) "by"(2) compare_Cons_same ObjectEncoding_compare_as_array)
  qed
next
  case VMin
  show ?case
  proof (cases "prefix_of (VMin :: 'n val) = prefix_of b")
    case False
    with VMin show ?thesis by (intro agree_diff)
  next
    case True
    with VMin show ?thesis by (cases b) auto
  qed
next
  case VMax
  show ?case
  proof (cases "prefix_of (VMax :: 'n val) = prefix_of b")
    case False
    with VMax show ?thesis by (intro agree_diff)
  next
    case True
    with VMax show ?thesis by (cases b) auto
  qed
next
  case VUndefined
  then show ?case by simp
qed

lemma representable_encodes: "representable v \<Longrightarrow> \<exists>e. Codec_encode P v = Inr e"
proof (induction v)
  case (VArr xs)
  have "\<exists>b. ArrayEncoding_encode (Codec_encode P) xs = Inr b"
  proof (rule ArrayEncoding_encode_all)
    show "\<exists>e. Codec_encode P x = Inr e" if "x \<in> set xs" for x
      using that VArr by (auto simp: list_all_iff)
  qed
  then show ?case by auto
next
  case (VObj es)
  have "\<exists>b. ArrayEncoding_encode (Codec_encode P) (items_of (sorted_entries es)) = Inr b"
  proof (rule ArrayEncoding_encode_all)
    fix x assume "x \<in> set (items_of (sorted_entries es))"
    from items_of_set [OF this] show "\<exists>e. Codec_encode P x = Inr e"
    proof
      assume "\<exists>k. x = VStr k"
      then show ?thesis by auto
    next
      assume "\<exists>k. (k, x) \<in> set (sorted_entries es)"
      then obtain k where "(k, x) \<in> set es" by (auto simp: sorted_entries_def)
      then show ?thesis using VObj.IH [of "(k, x)" x] VObj.prems by (auto simp: list_all_iff)
    qed
  qed
  then show ?case by (auto simp: ObjectEncoding_encode_items)
qed simp_all

text \<open>
  An instance of the parameters, for closed examples: the numbers are the naturals and
  \<open>elen\<close> writes \<open>n\<close> as \<open>n\<close> times the digit \<open>1\<close>, which is strictly increasing
  and inverted by the length. The examples parse no text but \<open>true\<close> and \<open>false\<close>
  and assign to string keys only, so the two other parameters are never applied in
  them; the instance lets them reject every text and make no key.
\<close>

definition sample_prims :: "nat prims" where
  "sample_prims =
     \<lparr>elen_encode = (\<lambda>n. replicate n 0x31),
      elen_decode = length,
      json_parse = (\<lambda>text. Inl SyntaxError),
      property_key = (\<lambda>v. None)\<rparr>"

lemma replicate_less: "m < n \<Longrightarrow> replicate m (c::unit16) < replicate n c"
proof (induction m arbitrary: n)
  case 0
  then show ?case by (cases n) simp_all
next
  case (Suc m)
  then show ?case by (cases n) simp_all
qed

lemma sample_prims_monotone: "elen_monotone sample_prims"
  by (simp add: elen_monotone_def sample_prims_def replicate_less)

text \<open>
  Where the numbers are linearly ordered, so that of two different numbers one is
  below the other (which leaves out one of the two zeros), and \<open>elen.encode\<close> is
  strictly increasing: two values the default codec represents (the sentinels
  included) are both encoded, and \<open>compare(a, b)\<close> is -1, 0 or 1 as the encoding of
  \<open>a\<close> is below, equal to or above the encoding of \<open>b\<close>, unit by unit.
\<close>

lemma order_agreement_linear:
  fixes P :: "('n::linorder) prims"
  assumes "elen_monotone P" and "representable a" and "representable b"
  shows "\<exists>ea eb. Codec_encode P a = Inr ea \<and> Codec_encode P b = Inr eb
           \<and> Codec_compare a b = Inr (if ea < eb then - 1 else if ea = eb then 0 else 1)"
proof -
  obtain ea where ea: "Codec_encode P a = Inr ea"
    using representable_encodes [OF assms(2)] by blast
  obtain eb where eb: "Codec_encode P b = Inr eb"
    using representable_encodes [OF assms(3)] by blast
  have "compare ea eb = (if ea < eb then - 1 else if ea = eb then 0 else 1)"
    by (cases ea eb rule: compare_cases) auto
  then show ?thesis
    using agree [OF assms(1) ea eb] ea eb by simp
qed

section \<open>A proper prefix of an array\<close>

lemma ArrayEncoding_encode_append:
  "ArrayEncoding_encode enc (a @ c) =
     (case ArrayEncoding_encode enc a of
        Inl e \<Rightarrow> Inl e
      | Inr ba \<Rightarrow>
          (case ArrayEncoding_encode enc c of Inl e \<Rightarrow> Inl e | Inr bc \<Rightarrow> Inr (ba @ bc)))"
  by (induction a) (auto split: sum.splits)

lemma ArrayEncoding_encode_nonempty:
  "ArrayEncoding_encode enc c = Inr bc \<Longrightarrow> c \<noteq> [] \<Longrightarrow> bc \<noteq> []"
  by (cases c) (auto split: sum.splits)

lemma prefix_less:
  assumes "representable (VArr (a @ c))" and "c \<noteq> []"
  shows "\<exists>ea eb. Codec_encode P (VArr a) = Inr ea \<and> Codec_encode P (VArr (a @ c)) = Inr eb
           \<and> ea < eb"
proof -
  obtain eb where eb: "Codec_encode P (VArr (a @ c)) = Inr eb"
    using representable_encodes [OF assms(1)] by blast
  then obtain ba bc where ba: "ArrayEncoding_encode (Codec_encode P) a = Inr ba"
    and bc: "ArrayEncoding_encode (Codec_encode P) c = Inr bc"
    and eb_eq: "eb = 0x64 # ba @ bc"
    by (auto simp: ArrayEncoding_encode_append split: sum.splits)
  have "bc \<noteq> []"
    using bc assms(2) by (rule ArrayEncoding_encode_nonempty)
  then have "ba @ [] < ba @ bc"
    unfolding append_less_cancel by simp
  then show ?thesis
    using eb ba eb_eq by simp
qed

text \<open>
  C5. The encoding of a proper prefix of a representable array is below the encoding
  of the array, as strings; so the encoding of a non-empty array without its last
  element is below the encoding of the array.
\<close>

theorem array_prefix_less:
  "(representable (VArr (a @ c)) \<and> c \<noteq> []
      \<longrightarrow> (\<exists>ea eb. Codec_encode P (VArr a) = Inr ea \<and> Codec_encode P (VArr (a @ c)) = Inr eb
             \<and> ea < eb))
   \<and> (representable (VArr t) \<and> t \<noteq> []
      \<longrightarrow> (\<exists>ea eb. Codec_encode P (VArr (butlast t)) = Inr ea \<and> Codec_encode P (VArr t) = Inr eb
             \<and> ea < eb))"
proof (intro conjI impI)
  assume "representable (VArr (a @ c)) \<and> c \<noteq> []"
  then show "\<exists>ea eb. Codec_encode P (VArr a) = Inr ea \<and> Codec_encode P (VArr (a @ c)) = Inr eb
             \<and> ea < eb"
    using prefix_less [of a c P] by blast
next
  assume h: "representable (VArr t) \<and> t \<noteq> []"
  then have "representable (VArr (butlast t @ [last t]))" by simp
  then show "\<exists>ea eb. Codec_encode P (VArr (butlast t)) = Inr ea \<and> Codec_encode P (VArr t) = Inr eb
             \<and> ea < eb"
    using prefix_less [of "butlast t" "[last t]" P] h by simp
qed

theorem array_prefix_less_witness:
  "representable (VArr [VStr (str ''chet''), VNum (7::nat)])
   \<and> (\<exists>ea eb. Codec_encode sample_prims (VArr (butlast [VStr (str ''chet''), VNum 7])) = Inr ea
         \<and> Codec_encode sample_prims (VArr [VStr (str ''chet''), VNum 7]) = Inr eb
         \<and> ea < eb)"
proof -
  have r: "representable (VArr [VStr (str ''chet''), VNum (7::nat)])
      \<and> [VStr (str ''chet''), VNum (7::nat)] \<noteq> []"
    by simp
  show ?thesis
    using array_prefix_less [of "[]" "[]" sample_prims "[VStr (str ''chet''), VNum 7]"] r
    by blast
qed

section \<open>Objects with the same entries\<close>

lemma ArrayEncoding_compare_refl:
  "(\<And>x. x \<in> set xs \<Longrightarrow> cmp x x = Inr 0) \<Longrightarrow> ArrayEncoding_compare cmp xs xs = Inr 0"
  by (induction xs) simp_all

lemma Codec_compare_same: "Codec_compare v v = Inr 0" for v :: "('n::ord) val"
proof (induction v)
  case (VArr xs)
  then show ?case by (simp add: ArrayEncoding_compare_refl)
next
  case (VObj es)
  have "ArrayEncoding_compare Codec_compare (items_of (sorted_entries es))
          (items_of (sorted_entries es)) = Inr 0"
  proof (rule ArrayEncoding_compare_refl)
    fix x :: "'n val" assume "x \<in> set (items_of (sorted_entries es))"
    from items_of_set [OF this] show "Codec_compare x x = Inr 0"
    proof
      assume "\<exists>k. x = VStr k"
      then show ?thesis by auto
    next
      assume "\<exists>k. (k, x) \<in> set (sorted_entries es)"
      then obtain k where "(k, x) \<in> set es" by (auto simp: sorted_entries_def)
      then show ?thesis using VObj.IH [of "(k, x)" x] by simp
    qed
  qed
  then show ?case by (simp add: ObjectEncoding_compare_as_array)
qed simp_all

lemma filter_key_distinct:
  "distinct (map f xs) \<Longrightarrow> k \<in> set xs \<Longrightarrow> filter (\<lambda>x. f k = f x) xs = [k]"
proof (induction xs)
  case Nil
  then show ?case by simp
next
  case (Cons a xs)
  show ?case
  proof (cases "k = a")
    case True
    have "filter (\<lambda>x. f a = f x) xs = []"
      using Cons.prems(1) by (auto simp: filter_empty_conv)
    then show ?thesis using True by simp
  next
    case False
    then have "k \<in> set xs" using Cons.prems by simp
    moreover have "f k \<noteq> f a" using Cons.prems(1) calculation by (auto simp: image_iff)
    ultimately show ?thesis using Cons by simp
  qed
qed

lemma sorted_entries_canonical:
  assumes d1: "distinct (map fst o1)" and d2: "distinct (map fst o2)" and s: "set o1 = set o2"
  shows "sorted_entries o1 = sorted_entries o2"
proof -
  have "distinct o1" "distinct o2"
    using d1 d2 by (simp_all add: distinct_map)
  then have m: "mset o1 = mset o2"
    using s by (simp add: set_eq_iff_mset_eq_distinct)
  have "sort_key fst o1 = sort_key fst o2"
  proof (rule properties_for_sort_key)
    show "mset (sort_key fst o2) = mset o1" using m by simp
    show "sorted (map fst (sort_key fst o2))" by simp
    fix k assume "k \<in> set (sort_key fst o2)"
    then have k: "k \<in> set o2" "k \<in> set o1" using s by simp_all
    have "distinct (map fst (sort_key fst o2))"
      using d2 by (simp add: distinct_map)
    then have "filter (\<lambda>x. fst k = fst x) (sort_key fst o2) = [k]"
      using k(1) by (intro filter_key_distinct) simp_all
    moreover have "filter (\<lambda>x. fst k = fst x) o1 = [k]"
      using d1 k(2) by (rule filter_key_distinct)
    ultimately show "filter (\<lambda>x. fst k = fst x) (sort_key fst o2) = filter (\<lambda>x. fst k = fst x) o1"
      by simp
  qed
  then show ?thesis by (simp add: sorted_entries_def)
qed

section \<open>Frame boundaries\<close>

text \<open>
  Whether the search of \<open>ArrayEncoding.decode\<close> meets, in a text, a \<open>00\<close> that ends a
  frame: one that is not the second unit of a pair \<open>01 00\<close> the regular expression
  matches as a whole. The equations are those of \<open>scan_frames\<close>.
\<close>

fun exposed_terminator :: "jstring \<Rightarrow> bool" where
  "exposed_terminator [] = False"
| "exposed_terminator (x # rest) =
     (if x = 1 then
        (case rest of
           [] \<Rightarrow> False
         | y # rest' \<Rightarrow>
             if y = 1 \<or> y = 0 then exposed_terminator rest' else exposed_terminator rest)
      else if x = 0 then True
      else exposed_terminator rest)"

lemma scan_frames_trailing:
  "\<not> exposed_terminator t \<Longrightarrow> scan_frames dec t escaped array = Inr array"
proof (induction t arbitrary: escaped rule: exposed_terminator.induct)
  case 1
  then show ?case by simp
next
  case (2 x r)
  show ?case
  proof (cases "x = 1")
    case True
    show ?thesis
    proof (cases r)
      case Nil
      then show ?thesis using True by simp
    next
      case (Cons y r')
      show ?thesis
      proof (cases "y = 1 \<or> y = 0")
        case yes: True
        have "scan_frames dec r' (escaped @ [x, y]) array = Inr array"
          using 2(4) True Cons yes by (intro 2(1)) auto
        then show ?thesis using True Cons yes by auto
      next
        case no: False
        have "scan_frames dec r (escaped @ [x]) array = Inr array"
          using 2(4) True Cons no by (intro 2(2)) auto
        then show ?thesis using True Cons no by auto
      qed
    qed
  next
    case False
    then have x0: "x \<noteq> 0" using 2(4) by auto
    have "scan_frames dec r (escaped @ [x]) array = Inr array"
      using 2(4) False x0 by (intro 2(3)) auto
    then show ?thesis using False x0 by auto
  qed
qed

lemma scan_frames_frame:
  "\<not> exposed_terminator c \<Longrightarrow> exposed_terminator (c @ [0])
   \<Longrightarrow> scan_frames dec (c @ 0 # rest) escaped array =
       (case dec (unescape (escaped @ c)) of
          Inl e \<Rightarrow> Inl e
        | Inr decoded \<Rightarrow> scan_frames dec rest [] (array @ [decoded]))"
proof (induction c arbitrary: escaped rule: exposed_terminator.induct)
  case 1
  then show ?case by simp
next
  case (2 x r)
  show ?case
  proof (cases "x = 1")
    case True
    show ?thesis
    proof (cases r)
      case Nil
      then show ?thesis using 2(4,5) True by simp
    next
      case (Cons y r')
      show ?thesis
      proof (cases "y = 1 \<or> y = 0")
        case yes: True
        have "scan_frames dec (r' @ 0 # rest) (escaped @ [x, y]) array =
           (case dec (unescape ((escaped @ [x, y]) @ r')) of
              Inl e \<Rightarrow> Inl e
            | Inr decoded \<Rightarrow> scan_frames dec rest [] (array @ [decoded]))"
          using 2(4,5) True Cons yes by (intro 2(1)) auto
        then show ?thesis using True Cons yes by auto
      next
        case no: False
        have "scan_frames dec (r @ 0 # rest) (escaped @ [x]) array =
           (case dec (unescape ((escaped @ [x]) @ r)) of
              Inl e \<Rightarrow> Inl e
            | Inr decoded \<Rightarrow> scan_frames dec rest [] (array @ [decoded]))"
          using 2(4,5) True Cons no by (intro 2(2)) auto
        then show ?thesis using True Cons no by auto
      qed
    qed
  next
    case False
    then have x0: "x \<noteq> 0" using 2(4) by auto
    have "scan_frames dec (r @ 0 # rest) (escaped @ [x]) array =
       (case dec (unescape ((escaped @ [x]) @ r)) of
          Inl e \<Rightarrow> Inl e
        | Inr decoded \<Rightarrow> scan_frames dec rest [] (array @ [decoded]))"
      using 2(4,5) False x0 by (intro 2(3)) auto
    then show ?thesis using False x0 by auto
  qed
qed

lemma exposed_esc_unit: "exposed_terminator (esc_unit c @ t) = exposed_terminator t"
  by (simp add: esc_unit_def)

lemma exposed_escape: "exposed_terminator (escape s @ t) = exposed_terminator t"
  by (induction s) (simp_all add: escape_Cons exposed_esc_unit)

lemma escape_frame_body:
  "\<not> exposed_terminator (escape s)" "exposed_terminator (escape s @ [0])"
  using exposed_escape [of s "[]"] exposed_escape [of s "[0]"] by simp_all

text \<open>Every \<open>00\<close> of a text stands right behind an \<open>01\<close>.\<close>

definition zeros_escaped :: "jstring \<Rightarrow> bool" where
  "zeros_escaped xs = (\<forall>i<length xs. xs ! i = 0 \<longrightarrow> 0 < i \<and> xs ! (i - 1) = 1)"

lemma zeros_escaped_append:
  assumes u: "zeros_escaped u" and ys: "zeros_escaped ys"
  shows "zeros_escaped (u @ ys)"
  unfolding zeros_escaped_def
proof (intro allI impI)
  fix i assume i: "i < length (u @ ys)" and z: "(u @ ys) ! i = 0"
  show "0 < i \<and> (u @ ys) ! (i - 1) = 1"
  proof (cases "i < length u")
    case True
    then have "u ! i = 0" using z by (simp add: nth_append)
    then have "0 < i \<and> u ! (i - 1) = 1"
      using u True by (simp add: zeros_escaped_def)
    moreover have "i - 1 < length u" using True by simp
    ultimately show ?thesis by (simp add: nth_append)
  next
    case False
    define j where "j = i - length u"
    have j: "j < length ys" "ys ! j = 0"
      using i z False by (simp_all add: j_def nth_append)
    then have "0 < j \<and> ys ! (j - 1) = 1"
      using ys by (simp add: zeros_escaped_def)
    then show ?thesis
      using False by (auto simp: j_def nth_append)
  qed
qed

lemma zeros_escaped_esc_unit: "zeros_escaped (esc_unit c)"
  by (auto simp: zeros_escaped_def esc_unit_def nth_Cons')

lemma zeros_escaped_escape: "zeros_escaped (escape s)"
proof (induction s)
  case Nil
  then show ?case by (simp add: zeros_escaped_def)
next
  case (Cons c s)
  then show ?case
    by (simp add: escape_Cons zeros_escaped_append zeros_escaped_esc_unit)
qed

text \<open>
  C7. In the escaped form of any string every \<open>00\<close> is the second unit of a pair
  \<open>01 00\<close>, and the search for a frame boundary meets no terminator in it. So in the
  escaped form followed by the terminator \<open>00\<close> and any further text, the first
  boundary \<open>scan_frames\<close> finds is that terminator: the frame it decodes is the
  escaped form, and it goes on behind the terminator.
\<close>

theorem terminator_unambiguous:
  "zeros_escaped (escape s)
   \<and> \<not> exposed_terminator (escape s)
   \<and> scan_frames dec (escape s @ 0 # rest) escaped array =
       (case dec (unescape (escaped @ escape s)) of
          Inl e \<Rightarrow> Inl e
        | Inr decoded \<Rightarrow> scan_frames dec rest [] (array @ [decoded]))"
  using zeros_escaped_escape [of s] escape_frame_body [of s]
    scan_frames_frame [of "escape s" dec rest escaped array]
  by simp

theorem terminator_unambiguous_witness:
  "escape [0x41, 0, 1] = [0x41, 1, 0, 1, 1]
   \<and> (2::nat) < length (escape [0x41, 0, 1]) \<and> escape [0x41, 0, 1] ! 2 = 0
   \<and> escape [0x41, 0, 1] ! (2 - 1) = 1
   \<and> scan_frames (\<lambda>s. Inr s) (escape [0x41, 0, 1] @ 0 # [0x42, 0]) [] []
       = Inr [[0x41, 0, 1], [0x42]]"
proof -
  have e: "escape [0x41, 0, 1] = [0x41, 1, 0, 1, 1]"
    by (simp add: escape_def)
  have z: "escape [0x41, 0, 1] ! 2 = 0 \<longrightarrow> escape [0x41, 0, 1] ! (2 - 1) = 1"
    using terminator_unambiguous [of "[0x41, 0, 1]" "\<lambda>s. Inr s" "[0x42, 0]" "[]" "[]"]
    by (simp add: zeros_escaped_def e)
  have s: "scan_frames (\<lambda>s. Inr s) (escape [0x41, 0, 1] @ 0 # [0x42, 0]) [] []
       = scan_frames (\<lambda>s. Inr s) [0x42, 0] [] [unescape (escape [0x41, 0, 1])]"
    using terminator_unambiguous [of "[0x41, 0, 1]" "\<lambda>s. Inr s" "[0x42, 0]" "[]" "[]"]
    by simp
  show ?thesis
    using z s by (simp add: e unescape_def)
qed

section \<open>Text behind the last terminator\<close>

text \<open>
  The content of a complete frame: the search meets no terminator in it and meets the
  one put behind it (so the content does not end in an \<open>01\<close> that would pair with
  that terminator). A body of complete frames is each content followed by \<open>00\<close>.
\<close>

definition frame_body :: "jstring \<Rightarrow> bool" where
  "frame_body c = (\<not> exposed_terminator c \<and> exposed_terminator (c @ [0]))"

definition frames_of :: "jstring list \<Rightarrow> jstring" where
  "frames_of cs = concat (map (\<lambda>c. c @ [0]) cs)"

text \<open>The elements of the frames: each content unescaped and decoded, in order.\<close>

fun decode_each :: "(jstring \<Rightarrow> error + 'v) \<Rightarrow> jstring list \<Rightarrow> error + 'v list" where
  "decode_each dec [] = Inr []"
| "decode_each dec (c # cs) =
     (case dec (unescape c) of
        Inl e \<Rightarrow> Inl e
      | Inr d \<Rightarrow> (case decode_each dec cs of Inl e \<Rightarrow> Inl e | Inr ds \<Rightarrow> Inr (d # ds)))"

lemma scan_frames_all:
  "list_all frame_body cs \<Longrightarrow> \<not> exposed_terminator trailing
   \<Longrightarrow> scan_frames dec (frames_of cs @ trailing) [] array =
       (case decode_each dec cs of Inl e \<Rightarrow> Inl e | Inr ds \<Rightarrow> Inr (array @ ds))"
proof (induction cs arbitrary: array)
  case Nil
  then show ?case by (simp add: frames_of_def scan_frames_trailing)
next
  case (Cons c cs)
  have c: "\<not> exposed_terminator c" "exposed_terminator (c @ [0])"
    using Cons.prems(1) by (simp_all add: frame_body_def)
  have split: "frames_of (c # cs) @ trailing = c @ 0 # (frames_of cs @ trailing)"
    by (simp add: frames_of_def)
  have IH: "\<And>arr. scan_frames dec (frames_of cs @ trailing) [] arr =
       (case decode_each dec cs of Inl e \<Rightarrow> Inl e | Inr ds \<Rightarrow> Inr (arr @ ds))"
    using Cons.prems by (intro Cons.IH) simp_all
  show ?case
    unfolding split scan_frames_frame [OF c]
    by (simp add: IH split: sum.splits)
qed

lemma decode_each_length: "decode_each dec cs = Inr ds \<Longrightarrow> length ds = length cs"
  by (induction cs arbitrary: ds) (auto split: sum.splits)

lemma decode_each_all:
  "list_all (\<lambda>c. \<exists>v. dec (unescape c) = Inr v) cs \<Longrightarrow> \<exists>ds. decode_each dec cs = Inr ds"
  by (induction cs) auto

lemma ArrayEncoding_decode_frames:
  assumes "list_all frame_body cs" and "\<not> exposed_terminator trailing"
  shows "ArrayEncoding_decode dec (frames_of cs @ trailing) = decode_each dec cs"
proof (cases "frames_of cs @ trailing = []")
  case True
  then have "cs = []" by (cases cs) (simp_all add: frames_of_def)
  then show ?thesis using True by (simp add: ArrayEncoding_decode_def)
next
  case False
  then have "ArrayEncoding_decode dec (frames_of cs @ trailing)
      = scan_frames dec (frames_of cs @ trailing) [] []"
    unfolding ArrayEncoding_decode_def by (rule if_not_P)
  also have "\<dots> = decode_each dec cs"
    using scan_frames_all [OF assms, of dec "[]"] by (simp split: sum.splits)
  finally show ?thesis .
qed

lemma exposed_split:
  "exposed_terminator b \<Longrightarrow> \<exists>c rest. b = c @ 0 # rest \<and> frame_body c"
proof (induction b rule: exposed_terminator.induct)
  case 1
  then show ?case by simp
next
  case (2 x r)
  show ?case
  proof (cases "x = 1")
    case True
    show ?thesis
    proof (cases r)
      case Nil
      then show ?thesis using 2(4) True by simp
    next
      case (Cons y r')
      show ?thesis
      proof (cases "y = 1 \<or> y = 0")
        case yes: True
        then have "exposed_terminator r'" using 2(4) True Cons by auto
        then obtain c rest where "r' = c @ 0 # rest" "frame_body c"
          using 2(1) [OF True Cons yes] by blast
        then have "x # r = (x # y # c) @ 0 # rest \<and> frame_body (x # y # c)"
          using True Cons yes by (auto simp: frame_body_def)
        then show ?thesis by blast
      next
        case no: False
        then have "exposed_terminator r" using 2(4) True Cons by auto
        then obtain c rest where c: "r = c @ 0 # rest" "frame_body c"
          using 2(2) [OF True Cons no] by blast
        then obtain c' where c': "c = y # c'"
          using Cons no by (cases c) auto
        have "x # r = (x # c) @ 0 # rest \<and> frame_body (x # c)"
          using True Cons no c c' by (auto simp: frame_body_def)
        then show ?thesis by blast
      qed
    qed
  next
    case False
    show ?thesis
    proof (cases "x = 0")
      case True
      then have "x # r = [] @ 0 # r \<and> frame_body []"
        by (simp add: frame_body_def)
      then show ?thesis by blast
    next
      case x0: False
      then have "exposed_terminator r" using 2(4) False by auto
      then obtain c rest where c: "r = c @ 0 # rest" "frame_body c"
        using 2(3) [OF False x0] by blast
      have "x # r = (x # c) @ 0 # rest \<and> frame_body (x # c)"
        using False x0 c by (auto simp: frame_body_def)
      then show ?thesis by blast
    qed
  qed
qed

lemma body_split:
  "\<exists>cs trailing. body = frames_of cs @ trailing \<and> list_all frame_body cs
     \<and> \<not> exposed_terminator trailing"
proof (induction body rule: length_induct)
  case (1 body)
  show ?case
  proof (cases "exposed_terminator body")
    case False
    then have "body = frames_of [] @ body \<and> list_all frame_body [] \<and> \<not> exposed_terminator body"
      by (simp add: frames_of_def)
    then show ?thesis by blast
  next
    case True
    then obtain c rest where c: "body = c @ 0 # rest" "frame_body c"
      using exposed_split by blast
    then have "length rest < length body" by simp
    then obtain cs trailing where r: "rest = frames_of cs @ trailing" "list_all frame_body cs"
        "\<not> exposed_terminator trailing"
      using 1 by blast
    have "body = frames_of (c # cs) @ trailing \<and> list_all frame_body (c # cs)
        \<and> \<not> exposed_terminator trailing"
      using c r by (simp add: frames_of_def)
    then show ?thesis by blast
  qed
qed

lemma Codec_decode_simps [simp]:
  "Codec_decode P [] = Inl MissingEncoding"
  "Codec_decode P (0x00 # rest) = Inr VNull"
  "Codec_decode P (0x62 # rest) = Inr VNull"
  "Codec_decode P (0x63 # rest) = ObjectEncoding_decode P (Codec_decode P) rest"
  "Codec_decode P (0x64 # rest) =
     (case ArrayEncoding_decode (Codec_decode P) rest of
        Inl e \<Rightarrow> Inl e | Inr array \<Rightarrow> Inr (VArr array))"
  "Codec_decode P (0x65 # rest) = Inr (VNum (elen_decode P rest))"
  "Codec_decode P (0x66 # rest) = Inr (VStr rest)"
  "Codec_decode P (0x67 # rest) = JSON_parse P rest"
  "Codec_decode P (0xff # rest) = Inr VNull"
  by (simp_all add: Codec_decode.simps [of P] jsonCodec_def)

text \<open>
  C8. Every body is a sequence of complete frames followed by a text in which the
  search meets no terminator (it may end in a lone \<open>01\<close>). \<open>ArrayEncoding.decode\<close>
  of such a body is the list of the elements of the complete frames, the same as
  without the text behind them; that text raises no error: when the content of every
  complete frame decodes, the body decodes to one element for each complete frame.
\<close>

theorem trailing_ignored:
  "(\<exists>cs trailing. body = frames_of cs @ trailing \<and> list_all frame_body cs
       \<and> \<not> exposed_terminator trailing)
   \<and> (list_all frame_body cs \<and> \<not> exposed_terminator trailing \<longrightarrow>
        ArrayEncoding_decode dec (frames_of cs @ trailing) = decode_each dec cs
      \<and> ArrayEncoding_decode dec (frames_of cs @ trailing)
          = ArrayEncoding_decode dec (frames_of cs)
      \<and> (list_all (\<lambda>c. \<exists>v. dec (unescape c) = Inr v) cs \<longrightarrow>
           (\<exists>vs. ArrayEncoding_decode dec (frames_of cs @ trailing) = Inr vs
              \<and> length vs = length cs)))"
proof (intro conjI impI)
  show "\<exists>cs trailing. body = frames_of cs @ trailing \<and> list_all frame_body cs
       \<and> \<not> exposed_terminator trailing"
    by (rule body_split)
next
  assume h: "list_all frame_body cs \<and> \<not> exposed_terminator trailing"
  then show "ArrayEncoding_decode dec (frames_of cs @ trailing) = decode_each dec cs"
    by (simp add: ArrayEncoding_decode_frames)
next
  assume h: "list_all frame_body cs \<and> \<not> exposed_terminator trailing"
  then have "ArrayEncoding_decode dec (frames_of cs @ []) = decode_each dec cs"
    by (intro ArrayEncoding_decode_frames) simp_all
  then show "ArrayEncoding_decode dec (frames_of cs @ trailing)
      = ArrayEncoding_decode dec (frames_of cs)"
    using h by (simp add: ArrayEncoding_decode_frames)
next
  assume h: "list_all frame_body cs \<and> \<not> exposed_terminator trailing"
    and ok: "list_all (\<lambda>c. \<exists>v. dec (unescape c) = Inr v) cs"
  obtain ds where ds: "decode_each dec cs = Inr ds"
    using decode_each_all [OF ok] by blast
  then have "length ds = length cs" by (rule decode_each_length)
  then show "\<exists>vs. ArrayEncoding_decode dec (frames_of cs @ trailing) = Inr vs
      \<and> length vs = length cs"
    using h ds by (simp add: ArrayEncoding_decode_frames)
qed

theorem trailing_ignored_witness:
  "list_all frame_body [str ''fa'', [0x66, 1, 0]]
   \<and> \<not> exposed_terminator (str ''fb'' @ [1])
   \<and> ArrayEncoding_decode (Codec_decode sample_prims)
        (frames_of [str ''fa'', [0x66, 1, 0]] @ str ''fb'' @ [1])
       = Inr [VStr (str ''a''), VStr [0]]"
proof -
  have h: "list_all frame_body [str ''fa'', [0x66, 1, 0]]
      \<and> \<not> exposed_terminator (str ''fb'' @ [1])"
    by (simp add: frame_body_def)
  have "ArrayEncoding_decode (Codec_decode sample_prims)
        (frames_of [str ''fa'', [0x66, 1, 0]] @ str ''fb'' @ [1])
      = decode_each (Codec_decode sample_prims) [str ''fa'', [0x66, 1, 0]]"
    using trailing_ignored [of "[]" "[str ''fa'', [0x66, 1, 0]]" "str ''fb'' @ [1]"
        "Codec_decode sample_prims"] h
    by blast
  then show ?thesis
    using h by (simp add: unescape_def)
qed

section \<open>Objects decoded from a flat body\<close>

lemma chunk_Nil [simp]: "chunk [] n = []"
  by (simp add: chunk.simps)

lemma chunk_2_single [simp]: "chunk [x] 2 = [[x]]"
  by (simp add: chunk.simps [of "[x]"])

lemma chunk_2_pair [simp]: "chunk (x # y # rest) 2 = [x, y] # chunk rest 2"
  by (simp add: chunk.simps [of "x # y # rest"] numeral_2_eq_2)

lemma map_of_put: "map_of (put k v obj) = (map_of obj)(k \<mapsto> v)"
  by (induction obj) auto

lemma put_keys: "fst ` set (put k v obj) = insert k (fst ` set obj)"
  by (simp add: dom_map_of_conv_image_fst [symmetric] map_of_put)

lemma put_distinct: "distinct (map fst obj) \<Longrightarrow> distinct (map fst (put k v obj))"
proof (induction obj)
  case Nil
  then show ?case by simp
next
  case (Cons a obj)
  then show ?case
    using put_keys [of k v obj] by (cases a) auto
qed

lemma set_property_VStr:
  "set_property P obj (VStr k) v = (if k = str ''__proto__'' then obj else put k v obj)"
  by (simp add: set_property_def)

lemma set_property_distinct:
  "distinct (map fst obj) \<Longrightarrow> distinct (map fst (set_property P obj key v))"
  by (simp add: set_property_def put_distinct split: option.splits)

lemma assign_entries_distinct:
  "distinct (map fst obj) \<Longrightarrow> distinct (map fst (assign_entries P obj entries))"
  by (induction entries arbitrary: obj) (simp_all add: set_property_distinct)

text \<open>
  The assignments a flat list of string keys and values with a last unpaired key
  leads to, in order.
\<close>

lemma assign_entries_flat:
  assumes k: "k \<noteq> str ''__proto__''"
  shows "map_of (assign_entries P obj (chunk (items_of kvs @ [VStr kn]) 2)) k
         = map_of (rev (kvs @ [(kn, VUndefined)]) @ obj) k"
proof (induction kvs arbitrary: obj)
  case Nil
  show ?case
    using k by (simp add: element_def set_property_VStr map_of_put)
next
  case (Cons a kvs)
  obtain ak av where a: "a = (ak, av)" by (cases a)
  have step: "map_of (set_property P obj (VStr ak) av) k = map_of ((ak, av) # obj) k"
    using k by (simp add: set_property_VStr map_of_put)
  have "map_of (assign_entries P obj (chunk (items_of (a # kvs) @ [VStr kn]) 2)) k
      = map_of (rev (kvs @ [(kn, VUndefined)]) @ set_property P obj (VStr ak) av) k"
    using Cons [of "set_property P obj (VStr ak) av"] by (simp add: a element_def)
  also have "\<dots> = map_of (rev (kvs @ [(kn, VUndefined)]) @ (ak, av) # obj) k"
    using step by (simp add: map_add_def split: option.splits)
  finally show ?case by (simp add: a)
qed

lemma map_of_last_distinct:
  "distinct (map fst kvs) \<Longrightarrow> (k, v) \<in> set kvs \<Longrightarrow> map_of (rev kvs) k = Some v"
  by (simp add: distinct_rev rev_map [symmetric])

text \<open>
  C10, as the code has it. When the body of an object decodes to string keys and
  values \<open>k0, v0, ..., kn\<close> with the last key unpaired, \<open>ObjectEncoding.decode\<close> raises
  no error and returns an object with distinct keys in which every key other than
  \<open>__proto__\<close> has the value last assigned to it among \<open>(k0, v0), ..., (kn, undefined)\<close>.
  So \<open>kn\<close> is mapped to \<open>undefined\<close>, and when the keys of the complete pairs are
  pairwise distinct, every complete pair whose key is not \<open>kn\<close> is an entry. Nothing
  is said of the key \<open>__proto__\<close>.
\<close>

theorem object_decode_odd:
  assumes "ArrayEncoding_decode dec body = Inr (items_of kvs @ [VStr kn])"
  shows "\<exists>es. ObjectEncoding_decode P dec body = Inr (VObj es)
     \<and> distinct (map fst es)
     \<and> (\<forall>k. k \<noteq> str ''__proto__''
           \<longrightarrow> map_of es k = map_of (rev (kvs @ [(kn, VUndefined)])) k)
     \<and> (kn \<noteq> str ''__proto__'' \<longrightarrow> map_of es kn = Some VUndefined)
     \<and> (\<forall>k v. distinct (map fst kvs) \<and> (k, v) \<in> set kvs \<and> k \<noteq> kn \<and> k \<noteq> str ''__proto__''
           \<longrightarrow> map_of es k = Some v)"
proof -
  define es where "es = assign_entries P [] (chunk (items_of kvs @ [VStr kn]) 2)"
  have r: "ObjectEncoding_decode P dec body = Inr (VObj es)"
    using assms by (simp add: ObjectEncoding_decode_def es_def)
  have d: "distinct (map fst es)"
    unfolding es_def by (rule assign_entries_distinct) simp
  have m: "map_of es k = map_of (rev (kvs @ [(kn, VUndefined)])) k" if "k \<noteq> str ''__proto__''" for k
    using assign_entries_flat [OF that, of P "[]" kvs kn] by (simp add: es_def)
  have last: "map_of es kn = Some VUndefined" if "kn \<noteq> str ''__proto__''"
    using m [OF that] by simp
  have pairs: "map_of es k = Some v"
    if "distinct (map fst kvs) \<and> (k, v) \<in> set kvs \<and> k \<noteq> kn \<and> k \<noteq> str ''__proto__''" for k v
  proof -
    have "map_of es k = map_of (rev kvs) k"
      using m [of k] that by simp
    then show ?thesis
      using that map_of_last_distinct [of kvs k v] by simp
  qed
  show ?thesis
    using r d m last pairs by blast
qed

theorem object_decode_odd_witness:
  "ArrayEncoding_decode (Codec_decode sample_prims)
       (str ''fa'' @ [0] @ str ''fx'' @ [0] @ str ''fb'' @ [0])
     = Inr (items_of [(str ''a'', VStr (str ''x''))] @ [VStr (str ''b'')])
   \<and> (\<exists>es. ObjectEncoding_decode sample_prims (Codec_decode sample_prims)
              (str ''fa'' @ [0] @ str ''fx'' @ [0] @ str ''fb'' @ [0]) = Inr (VObj es)
         \<and> map_of es (str ''b'') = Some VUndefined
         \<and> map_of es (str ''a'') = Some (VStr (str ''x'')))"
proof -
  have h: "ArrayEncoding_decode (Codec_decode sample_prims)
       (str ''fa'' @ [0] @ str ''fx'' @ [0] @ str ''fb'' @ [0])
     = Inr (items_of [(str ''a'', VStr (str ''x''))] @ [VStr (str ''b'')])"
    by (simp add: ArrayEncoding_decode_def unescape_def)
  obtain es where es: "ObjectEncoding_decode sample_prims (Codec_decode sample_prims)
              (str ''fa'' @ [0] @ str ''fx'' @ [0] @ str ''fb'' @ [0]) = Inr (VObj es)"
    and m: "\<forall>k. k \<noteq> str ''__proto__''
           \<longrightarrow> map_of es k = map_of (rev ([(str ''a'', VStr (str ''x''))] @ [(str ''b'', VUndefined)])) k"
    using object_decode_odd [OF h, of sample_prims] by blast
  have "map_of es (str ''b'') = Some (VUndefined :: nat val)"
    using m [rule_format, of "str ''b''"] by simp
  moreover have "map_of es (str ''a'') = Some (VStr (str ''x''))"
    using m [rule_format, of "str ''a''"] by simp
  ultimately show ?thesis
    using h es by blast
qed

text \<open>
  As the claim states it, C10 fails on a repeated key: the body below decodes to the
  three elements \<open>a\<close>, \<open>x\<close>, \<open>a\<close>, and the object returned has the one entry \<open>a\<close>,
  \<open>undefined\<close>; the complete pair \<open>a\<close>, \<open>x\<close> is no entry of it.
\<close>

theorem object_decode_odd_counterexample:
  "ArrayEncoding_decode (Codec_decode sample_prims)
       (str ''fa'' @ [0] @ str ''fx'' @ [0] @ str ''fa'' @ [0])
     = Inr [VStr (str ''a''), VStr (str ''x''), VStr (str ''a'')]
   \<and> ObjectEncoding_decode sample_prims (Codec_decode sample_prims)
       (str ''fa'' @ [0] @ str ''fx'' @ [0] @ str ''fa'' @ [0])
     = Inr (VObj [(str ''a'', VUndefined)])
   \<and> (str ''a'', VStr (str ''x'')) \<notin> set [(str ''a'', VUndefined :: nat val)]"
  by (simp add: ArrayEncoding_decode_def ObjectEncoding_decode_def unescape_def
      element_def set_property_def)

section \<open>Round trip\<close>

lemma replace_pair_other:
  "x \<noteq> a \<Longrightarrow> replace_pair a b r (x # s) = x # replace_pair a b r s"
  by (cases s) simp_all

lemma replace_pair_head:
  "(s = [] \<or> hd s \<noteq> b) \<Longrightarrow> replace_pair a b r (x # s) = x # replace_pair a b r s"
  by (cases s) auto

text \<open>The escaped form after the first replacement of \<open>unescape\<close>.\<close>

definition half_unit :: "unit16 \<Rightarrow> jstring" where
  "half_unit c = (if c = 0 then [1, 0] else [c])"

lemma half_unit_simps: "half_unit 0 = [1, 0]" "c \<noteq> 0 \<Longrightarrow> half_unit c = [c]"
  by (simp_all add: half_unit_def)

lemma unescape_first:
  "replace_pair 1 1 [1] (escape s) = concat (map half_unit s)"
proof (induction s)
  case Nil
  then show ?case by simp
next
  case (Cons c s)
  then show ?case
    by (simp add: escape_Cons esc_unit_def half_unit_def replace_pair_other)
qed

lemma half_head: "concat (map half_unit s) = [] \<or> hd (concat (map half_unit s)) \<noteq> 0"
  by (cases s) (auto simp: half_unit_def)

lemma unescape_second:
  "replace_pair 1 0 [0] (concat (map half_unit s)) = s"
proof (induction s)
  case Nil
  then show ?case by simp
next
  case (Cons c s)
  show ?case
  proof (cases "c = 0")
    case True
    then show ?thesis using Cons by (simp add: half_unit_simps)
  next
    case False
    have "replace_pair 1 0 [0] (c # concat (map half_unit s))
        = c # replace_pair 1 0 [0] (concat (map half_unit s))"
      using half_head [of s] by (intro replace_pair_head) simp
    then show ?thesis using False Cons by (simp add: half_unit_simps)
  qed
qed

lemma unescape_escape [simp]: "unescape (escape s) = s"
  by (simp add: unescape_def unescape_first unescape_second)

lemma scan_frames_encoded:
  assumes "ArrayEncoding_encode enc xs = Inr body"
      and "\<And>x e. x \<in> set xs \<Longrightarrow> enc x = Inr e \<Longrightarrow> dec e = Inr (f x)"
  shows "scan_frames dec body [] array = Inr (array @ map f xs)"
  using assms
proof (induction xs arbitrary: body array)
  case Nil
  then show ?case by simp
next
  case (Cons x xs)
  obtain e r where e: "enc x = Inr e" and r: "ArrayEncoding_encode enc xs = Inr r"
    and body: "body = escape e @ 0 # r"
    using ArrayEncoding_encode_Cons_Inr [OF Cons.prems(1)] by blast
  have d: "dec e = Inr (f x)"
    using Cons.prems(2) [of x e] e by simp
  have IH: "scan_frames dec r [] (array @ [f x]) = Inr ((array @ [f x]) @ map f xs)"
    using r Cons.prems(2) by (intro Cons.IH) auto
  show ?case
    unfolding body scan_frames_frame [OF escape_frame_body]
    using d IH by simp
qed

lemma ArrayEncoding_round_trip:
  assumes "ArrayEncoding_encode enc xs = Inr body"
      and "\<And>x e. x \<in> set xs \<Longrightarrow> enc x = Inr e \<Longrightarrow> dec e = Inr (f x)"
  shows "ArrayEncoding_decode dec body = Inr (map f xs)"
proof (cases xs)
  case Nil
  then show ?thesis using assms(1) by (simp add: ArrayEncoding_decode_def)
next
  case (Cons x xs')
  then have "body \<noteq> []"
    using ArrayEncoding_encode_nonempty [OF assms(1)] by simp
  then have "ArrayEncoding_decode dec body = scan_frames dec body [] []"
    unfolding ArrayEncoding_decode_def by (rule if_not_P)
  then show ?thesis
    using scan_frames_encoded [OF assms, where array = "[]"] by simp
qed

text \<open>
  The values of the round trip: null, booleans, numbers, strings, arrays and objects
  with distinct keys, nested; no sentinel and no \<open>undefined\<close>.
\<close>

fun json_value :: "'n val \<Rightarrow> bool" where
  "json_value VNull = True"
| "json_value (VBool b) = True"
| "json_value (VNum x) = True"
| "json_value (VStr s) = True"
| "json_value (VArr array) = list_all json_value array"
| "json_value (VObj entries) =
     (distinct (map fst entries) \<and> list_all (\<lambda>(k, v). json_value v) entries)"
| "json_value v = False"

text \<open>No object of the value, at any depth, has the key \<open>__proto__\<close>.\<close>

fun no_proto_key :: "'n val \<Rightarrow> bool" where
  "no_proto_key (VArr array) = list_all no_proto_key array"
| "no_proto_key (VObj entries) =
     (str ''__proto__'' \<notin> fst ` set entries \<and> list_all (\<lambda>(k, v). no_proto_key v) entries)"
| "no_proto_key v = True"

text \<open>
  Deep equality of two values, as \<open>assert.deepStrictEqual\<close> decides it on them: arrays
  element by element; objects have as many keys, and every key of the first is a key
  of the second with a deeply equal value, in whatever order the keys are listed.
\<close>

fun deep_equal :: "'n val \<Rightarrow> 'n val \<Rightarrow> bool" where
  "deep_equal (VArr xs) b = (case b of VArr ys \<Rightarrow> list_all2 deep_equal xs ys | _ \<Rightarrow> False)"
| "deep_equal (VObj es) b =
     (case b of
        VObj fs \<Rightarrow>
          length es = length fs
          \<and> list_all (\<lambda>(k, v). case map_of fs k of None \<Rightarrow> False | Some w \<Rightarrow> deep_equal v w) es
      | _ \<Rightarrow> False)"
| "deep_equal a b = (a = b)"

text \<open>
  What decoding the encoding of a value gives: the value with the entries of every
  object sorted by key.
\<close>

function canonical :: "'n val \<Rightarrow> 'n val" where
  "canonical (VArr array) = VArr (map canonical array)"
| "canonical (VObj entries) = VObj (map (\<lambda>(k, v). (k, canonical v)) (sorted_entries entries))"
| "canonical VNull = VNull"
| "canonical (VBool b) = VBool b"
| "canonical (VNum x) = VNum x"
| "canonical (VStr s) = VStr s"
| "canonical VMin = VMin"
| "canonical VMax = VMax"
| "canonical VUndefined = VUndefined"
  by pat_completeness auto
termination
  by (relation "measure size") (auto simp: sorted_entries_def dest: size_element size_entry)

lemma put_fresh: "k \<notin> fst ` set obj \<Longrightarrow> put k v obj = obj @ [(k, v)]"
  by (induction obj) auto

lemma assign_entries_fresh:
  "\<lbrakk>distinct (map fst T); fst ` set T \<inter> fst ` set obj = {}; str ''__proto__'' \<notin> fst ` set T\<rbrakk>
   \<Longrightarrow> assign_entries P obj (chunk (items_of T) 2) = obj @ T"
proof (induction T arbitrary: obj)
  case Nil
  then show ?case by simp
next
  case (Cons a T)
  obtain k v where a: "a = (k, v)" by (cases a)
  have k: "k \<noteq> str ''__proto__''" "k \<notin> fst ` set obj"
    using Cons.prems a by auto
  have step: "set_property P obj (VStr k) v = obj @ [(k, v)]"
    using k by (simp add: set_property_VStr put_fresh)
  have "assign_entries P (obj @ [(k, v)]) (chunk (items_of T) 2) = (obj @ [(k, v)]) @ T"
    using Cons.prems a by (intro Cons.IH) auto
  then show ?case
    by (simp add: a element_def step)
qed

lemma map_fst_values: "map fst (map (\<lambda>(k, v). (k, g v)) S) = map fst S"
  by (induction S) auto

lemma canonical_items:
  "map canonical (items_of S) = items_of (map (\<lambda>(k, v). (k, canonical v)) S)"
  by (induction S) auto

lemma json_value_representable: "json_value v \<Longrightarrow> representable v"
proof (induction v)
  case (VArr xs)
  then show ?case by (auto simp: list_all_iff)
next
  case (VObj es)
  have "representable v" if "(k, v) \<in> set es" for k v
  proof -
    have "json_value v" using that VObj.prems by (fastforce simp: list_all_iff)
    then show ?thesis using that VObj.IH [of "(k, v)" v] by simp
  qed
  then show ?case using VObj.prems by (auto simp: list_all_iff)
qed simp_all

lemma round_trip_canonical:
  assumes inv: "\<And>x. elen_decode P (elen_encode P x) = x"
  shows "json_value v \<Longrightarrow> no_proto_key v \<Longrightarrow> Codec_encode P v = Inr e
         \<Longrightarrow> Codec_decode P e = Inr (canonical v)"
proof (induction v arbitrary: e)
  case (VBool b)
  then show ?case by (cases b) (auto simp: JSON_parse_def)
next
  case (VNum x)
  then show ?case by (auto simp: inv)
next
  case (VArr xs)
  obtain body where body: "ArrayEncoding_encode (Codec_encode P) xs = Inr body" "e = 0x64 # body"
    using VArr.prems(3) by (auto split: sum.splits)
  have "ArrayEncoding_decode (Codec_decode P) body = Inr (map canonical xs)"
  proof (rule ArrayEncoding_round_trip [OF body(1)])
    fix x e' assume x: "x \<in> set xs" "Codec_encode P x = Inr e'"
    have "json_value x" "no_proto_key x"
      using x(1) VArr.prems(1,2) by (auto simp: list_all_iff)
    then show "Codec_decode P e' = Inr (canonical x)"
      using VArr.IH [of x e'] x by simp
  qed
  then show ?case by (simp add: body(2))
next
  case (VObj es)
  let ?S = "sorted_entries es"
  let ?T = "map (\<lambda>(k, v). (k, canonical v)) ?S"
  obtain body where body: "ArrayEncoding_encode (Codec_encode P) (items_of ?S) = Inr body"
      "e = 0x63 # body"
    using VObj.prems(3) by (auto simp: ObjectEncoding_encode_items split: sum.splits)
  have "ArrayEncoding_decode (Codec_decode P) body = Inr (map canonical (items_of ?S))"
  proof (rule ArrayEncoding_round_trip [OF body(1)])
    fix x e' assume x: "x \<in> set (items_of ?S)" and e': "Codec_encode P x = Inr e'"
    from items_of_set [OF x] show "Codec_decode P e' = Inr (canonical x)"
    proof
      assume "\<exists>k. x = VStr k"
      then show ?thesis using e' by auto
    next
      assume "\<exists>k. (k, x) \<in> set ?S"
      then obtain k where kx: "(k, x) \<in> set es" by (auto simp: sorted_entries_def)
      have "json_value x" "no_proto_key x"
        using kx VObj.prems(1,2) by (fastforce simp: list_all_iff)+
      then show ?thesis
        using VObj.IH [of "(k, x)" x e'] kx e' by simp
    qed
  qed
  then have items: "ArrayEncoding_decode (Codec_decode P) body = Inr (items_of ?T)"
    by (simp add: canonical_items)
  have keys: "map fst ?T = map fst ?S"
    by (rule map_fst_values)
  have "distinct (map fst ?S)"
    using VObj.prems(1) by (simp add: sorted_entries_def distinct_map)
  then have d: "distinct (map fst ?T)"
    unfolding keys .
  have "set (map fst ?T) = set (map fst es)"
    unfolding keys by (simp add: sorted_entries_def)
  then have "fst ` set ?T = fst ` set es"
    by (metis list.set_map)
  moreover have "str ''__proto__'' \<notin> fst ` set es"
    using VObj.prems(2) by simp
  ultimately have p: "str ''__proto__'' \<notin> fst ` set ?T"
    by (simp only: not_False_eq_True)
  have "assign_entries P [] (chunk (items_of ?T) 2) = [] @ ?T"
    using d p by (intro assign_entries_fresh) simp_all
  then show ?case
    by (simp add: body(2) ObjectEncoding_decode_def items)
qed simp_all

lemma deep_equal_canonical: "json_value v \<Longrightarrow> deep_equal (canonical v) v"
proof (induction v)
  case (VArr xs)
  then show ?case
    by (auto simp: list_all2_map1 list_all2_same list_all_iff)
next
  case (VObj es)
  have "case map_of es k of None \<Rightarrow> False | Some w \<Rightarrow> deep_equal (canonical v) w"
    if "(k, v) \<in> set es" for k v
  proof -
    have "map_of es k = Some v"
      using that VObj.prems by (intro map_of_is_SomeI) simp_all
    moreover have "json_value v"
      using that VObj.prems by (fastforce simp: list_all_iff)
    then have "deep_equal (canonical v) v"
      using that VObj.IH [of "(k, v)" v] by simp
    ultimately show ?thesis by simp
  qed
  then show ?case
    by (auto simp: list_all_iff sorted_entries_def)
qed simp_all

text \<open>
  The round trip of a value none of whose objects has the key \<open>__proto__\<close>:
  decoding its encoding gives a deeply equal value. \<open>elen.decode\<close> is taken to invert
  \<open>elen.encode\<close>.
\<close>

lemma round_trip_without_proto:
  assumes "\<And>x. elen_decode P (elen_encode P x) = x" and "json_value v" and "no_proto_key v"
  shows "\<exists>e w. Codec_encode P v = Inr e \<and> Codec_decode P e = Inr w \<and> deep_equal w v"
proof -
  obtain e where e: "Codec_encode P v = Inr e"
    using representable_encodes [OF json_value_representable [OF assms(2)]] by blast
  have "Codec_decode P e = Inr (canonical v)"
    using assms e by (intro round_trip_canonical) simp_all
  then show ?thesis
    using e deep_equal_canonical [OF assms(2)] by blast
qed

text \<open>
  C2 on an object with the own key \<open>__proto__\<close>, such as
  \<open>JSON.parse('{"__proto__": "x"}')\<close>: the codec encodes it, and decoding the encoding
  gives the empty object, which is not deeply equal to it.
\<close>

theorem round_trip_proto_key:
  "json_value (VObj [(str ''__proto__'', VStr (str ''x'') :: nat val)])
   \<and> Codec_encode sample_prims (VObj [(str ''__proto__'', VStr (str ''x''))])
       = Inr (str ''c'' @ str ''f__proto__'' @ [0] @ str ''fx'' @ [0])
   \<and> Codec_decode sample_prims (str ''c'' @ str ''f__proto__'' @ [0] @ str ''fx'' @ [0])
       = Inr (VObj [])
   \<and> \<not> deep_equal (VObj []) (VObj [(str ''__proto__'', VStr (str ''x'') :: nat val)])"
  by (simp add: escape_def ObjectEncoding_encode_def sorted_entries_def
      ArrayEncoding_decode_def ObjectEncoding_decode_def unescape_def element_def
      set_property_def)

section \<open>The two zeros\<close>

text \<open>
  Of two different numbers neither of which is below the other, as \<open>0\<close> and \<open>-0\<close>,
  the comparison in memory is 0, whatever \<open>elen.encode\<close> writes for them; when it
  writes them differently, as the inverse \<open>elen.decode\<close> requires, the encodings are
  not equal.
\<close>

lemma unordered_numbers_compare_0:
  assumes "\<not> x < y" and "\<not> y < x"
  shows "Codec_compare (VNum x) (VNum y) = Inr 0"
  using assms by (cases "x = y") (simp_all add: Codec_compare_VNum_other compare_def)

lemma unordered_numbers_encodings:
  assumes "elen_encode P x \<noteq> elen_encode P y"
  shows "Codec_encode P (VNum x) \<noteq> Codec_encode P (VNum y)"
  using assms by simp

text \<open>
  Three numbers with their order: \<open>-0\<close>, \<open>0\<close> and \<open>10\<close>. Neither zero is below the
  other, and both are below \<open>10\<close>.
\<close>

datatype sample_number = NegZero | Zero | Ten

instantiation sample_number :: ord
begin

definition less_sample_number :: "sample_number \<Rightarrow> sample_number \<Rightarrow> bool" where
  "less_sample_number x y = (x \<noteq> Ten \<and> y = Ten)"

definition less_eq_sample_number :: "sample_number \<Rightarrow> sample_number \<Rightarrow> bool" where
  "less_eq_sample_number x y = (y = Ten \<or> x \<noteq> Ten)"

instance ..

end

text \<open>
  The parameters on these numbers: \<open>elen.encode\<close> writes \<open>0\<close> as \<open>>00\<close>, \<open>-0\<close> as
  \<open><;;42047;;;2164503599627370495\<close> and \<open>10\<close> as \<open>>;;41026;;;2161125899906842624\<close>
  (the last as the README shows it), which is strictly increasing; \<open>elen.decode\<close>
  inverts it. The two other parameters are as in \<open>sample_prims\<close>.
\<close>

definition zero_prims :: "sample_number prims" where
  "zero_prims =
     \<lparr>elen_encode =
        (\<lambda>x. case x of
           NegZero \<Rightarrow> str ''<;;42047;;;2164503599627370495''
         | Zero \<Rightarrow> str ''>00''
         | Ten \<Rightarrow> str ''>;;41026;;;2161125899906842624''),
      elen_decode =
        (\<lambda>text. if text = str ''<;;42047;;;2164503599627370495'' then NegZero
                else if text = str ''>00'' then Zero else Ten),
      json_parse = (\<lambda>text. Inl SyntaxError),
      property_key = (\<lambda>v. None)\<rparr>"

lemma zero_prims_monotone: "elen_monotone zero_prims"
  unfolding elen_monotone_def
proof (intro allI impI)
  fix x y :: sample_number assume "x < y"
  then have "x \<noteq> Ten" "y = Ten" by (simp_all add: less_sample_number_def)
  then show "elen_encode zero_prims x < elen_encode zero_prims y"
    by (cases x) (simp_all add: zero_prims_def)
qed

lemma zero_prims_inverse: "elen_decode zero_prims (elen_encode zero_prims x) = x"
  by (cases x) (simp_all add: zero_prims_def)

text \<open>
  C1 on the numbers \<open>0\<close> and \<open>-0\<close>: \<open>compare(0, -0)\<close> is 0, while the encoding of \<open>0\<close>
  is above the encoding of \<open>-0\<close>, so that the comparison of the two encodings is 1.
\<close>

theorem order_agreement_zeros:
  "representable (VNum Zero) \<and> representable (VNum NegZero)
   \<and> Codec_compare (VNum Zero) (VNum NegZero) = Inr 0
   \<and> Codec_encode zero_prims (VNum Zero) = Inr (str ''e>00'')
   \<and> Codec_encode zero_prims (VNum NegZero) = Inr (str ''e<;;42047;;;2164503599627370495'')
   \<and> str ''e<;;42047;;;2164503599627370495'' < str ''e>00''
   \<and> compare (str ''e>00'') (str ''e<;;42047;;;2164503599627370495'') = 1"
  by (simp add: Codec_compare_VNum_other compare_def less_sample_number_def zero_prims_def)

section \<open>Deeply equal values\<close>

lemma ArrayEncoding_encode_pointwise:
  "list_all2 (\<lambda>x y. enc x = enc y) xs ys
   \<Longrightarrow> ArrayEncoding_encode enc xs = ArrayEncoding_encode enc ys"
  by (induction rule: list_all2_induct) (simp_all split: sum.splits)

lemma ArrayEncoding_compare_pointwise:
  "list_all2 (\<lambda>x y. cmp x y = Inr 0) xs ys \<Longrightarrow> ArrayEncoding_compare cmp xs ys = Inr 0"
  by (induction rule: list_all2_induct) simp_all

lemma items_of_pointwise:
  assumes "list_all2 (\<lambda>e f. fst e = fst f \<and> R (snd e) (snd f)) S T"
      and "\<And>k. R (VStr k) (VStr k)"
  shows "list_all2 R (items_of S) (items_of T)"
  using assms(1)
proof (induction rule: list_all2_induct)
  case Nil
  then show ?case by simp
next
  case (Cons e S f T)
  obtain k v where e: "e = (k, v)" by (cases e)
  obtain k' w where f: "f = (k', w)" by (cases f)
  show ?case
    using Cons assms(2) [of k] by (simp add: e f)
qed

text \<open>
  Two lists of entries with distinct keys, as many entries, and every key of the first
  a key of the second with a related value: sorted by key they are related entry by
  entry.
\<close>

lemma sorted_entries_pointwise:
  assumes d1: "distinct (map fst es)" and d2: "distinct (map fst fs)"
      and len: "length es = length fs"
      and rel: "\<And>k v. (k, v) \<in> set es \<Longrightarrow> \<exists>w. map_of fs k = Some w \<and> R v w"
  shows "list_all2 (\<lambda>e f. fst e = fst f \<and> R (snd e) (snd f))
           (sorted_entries es) (sorted_entries fs)"
proof -
  let ?S = "sorted_entries es" and ?T = "sorted_entries fs"
  have sub: "fst ` set es \<subseteq> fst ` set fs"
  proof
    fix k assume "k \<in> fst ` set es"
    then obtain v where "(k, v) \<in> set es" by auto
    then obtain w where "map_of fs k = Some w" using rel by blast
    then have "(k, w) \<in> set fs" by (rule map_of_SomeD)
    then show "k \<in> fst ` set fs" by force
  qed
  have "card (fst ` set es) = length es"
    using d1 distinct_card [of "map fst es"] by simp
  moreover have "card (fst ` set fs) = length fs"
    using d2 distinct_card [of "map fst fs"] by simp
  ultimately have keys: "fst ` set es = fst ` set fs"
    using sub len by (intro card_subset_eq) simp_all
  have sS: "sorted (map fst ?S)" "distinct (map fst ?S)" "set (map fst ?S) = fst ` set es"
    using d1 by (simp_all add: sorted_entries_def distinct_map)
  have sT: "sorted (map fst ?T)" "distinct (map fst ?T)" "set (map fst ?T) = fst ` set fs"
    using d2 by (simp_all add: sorted_entries_def distinct_map)
  have same: "map fst ?S = map fst ?T"
    using sS sT keys by (intro sorted_distinct_set_unique) simp_all
  have l: "length ?S = length ?T"
    using len by (simp add: sorted_entries_def)
  show ?thesis
    unfolding list_all2_conv_all_nth
  proof (intro conjI allI impI)
    show "length ?S = length ?T" by (rule l)
  next
    fix i assume i: "i < length ?S"
    have "map fst ?S ! i = map fst ?T ! i" using same by simp
    then show "fst (?S ! i) = fst (?T ! i)" using i l by simp
  next
    fix i assume i: "i < length ?S"
    have k: "fst (?S ! i) = fst (?T ! i)"
      using same i l by (metis nth_map)
    have "?S ! i \<in> set es"
      using i by (metis nth_mem set_sort sorted_entries_def)
    then have "(fst (?S ! i), snd (?S ! i)) \<in> set es" by simp
    then obtain w where w: "map_of fs (fst (?S ! i)) = Some w" "R (snd (?S ! i)) w"
      using rel by blast
    have "?T ! i \<in> set fs"
      using i l by (metis nth_mem set_sort sorted_entries_def)
    then have "(fst (?T ! i), snd (?T ! i)) \<in> set fs" by simp
    then have "map_of fs (fst (?T ! i)) = Some (snd (?T ! i))"
      using d2 by (intro map_of_is_SomeI) simp_all
    then have "w = snd (?T ! i)" using w(1) k by simp
    then show "R (snd (?S ! i)) (snd (?T ! i))" using w(2) by simp
  qed
qed

lemma deep_equal_agree:
  fixes P :: "('n::ord) prims"
  shows "deep_equal a b \<Longrightarrow> representable a \<Longrightarrow> representable b
         \<Longrightarrow> Codec_encode P a = Codec_encode P b \<and> Codec_compare a b = Inr 0"
proof (induction a arbitrary: b)
  case (VArr xs)
  then obtain ys where b: "b = VArr ys" and l: "list_all2 deep_equal xs ys"
    by (cases b) auto
  have rx: "\<And>x. x \<in> set xs \<Longrightarrow> representable x"
    using VArr.prems(2) by (simp add: list_all_iff)
  have ry: "\<And>y. y \<in> set ys \<Longrightarrow> representable y"
    using VArr.prems(3) b by (simp add: list_all_iff)
  have both: "list_all2 (\<lambda>x y. Codec_encode P x = Codec_encode P y \<and> Codec_compare x y = Inr 0)
      xs ys"
  proof (rule list_all2_all_nthI)
    show "length xs = length ys" using l by (rule list_all2_lengthD)
  next
    fix i assume i: "i < length xs"
    then have "deep_equal (xs ! i) (ys ! i)" using l by (simp add: list_all2_nthD)
    moreover have "i < length ys" using i l by (simp add: list_all2_lengthD)
    ultimately show "Codec_encode P (xs ! i) = Codec_encode P (ys ! i)
        \<and> Codec_compare (xs ! i) (ys ! i) = Inr 0"
      using VArr.IH [of "xs ! i" "ys ! i"] rx [of "xs ! i"] ry [of "ys ! i"] i by simp
  qed
  have e: "ArrayEncoding_encode (Codec_encode P) xs = ArrayEncoding_encode (Codec_encode P) ys"
    using both by (intro ArrayEncoding_encode_pointwise) (simp add: list_all2_conv_all_nth)
  have c: "ArrayEncoding_compare Codec_compare xs ys = Inr 0"
    using both by (intro ArrayEncoding_compare_pointwise) (simp add: list_all2_conv_all_nth)
  show ?case
    using e c by (simp add: b)
next
  case (VObj es)
  then obtain fs where b: "b = VObj fs" and len: "length es = length fs"
    and ents: "list_all (\<lambda>(k, v). case map_of fs k of None \<Rightarrow> False | Some w \<Rightarrow> deep_equal v w) es"
    by (cases b) auto
  let ?R = "\<lambda>x y. Codec_encode P x = Codec_encode P y \<and> Codec_compare x y = Inr 0"
  have d1: "distinct (map fst es)" and d2: "distinct (map fst fs)"
    using VObj.prems(2,3) b by simp_all
  have rel: "\<exists>w. map_of fs k = Some w \<and> ?R v w" if kv: "(k, v) \<in> set es" for k v
  proof -
    have "case map_of fs k of None \<Rightarrow> False | Some w \<Rightarrow> deep_equal v w"
      using ents kv by (fastforce simp: list_all_iff)
    then obtain w where w: "map_of fs k = Some w" "deep_equal v w"
      by (cases "map_of fs k") simp_all
    have "(k, w) \<in> set fs" using w(1) by (rule map_of_SomeD)
    then have rw: "representable w"
      using VObj.prems(3) b by (fastforce simp: list_all_iff)
    have rv: "representable v"
      using VObj.prems(2) kv by (fastforce simp: list_all_iff)
    have "?R v w"
      using VObj.IH [of "(k, v)" v w] kv w(2) rv rw by simp
    then show ?thesis using w(1) by blast
  qed
  have "list_all2 (\<lambda>e f. fst e = fst f \<and> ?R (snd e) (snd f)) (sorted_entries es) (sorted_entries fs)"
    using d1 d2 len rel by (rule sorted_entries_pointwise)
  then have items: "list_all2 ?R (items_of (sorted_entries es)) (items_of (sorted_entries fs))"
    by (rule items_of_pointwise) simp
  have e: "ArrayEncoding_encode (Codec_encode P) (items_of (sorted_entries es))
      = ArrayEncoding_encode (Codec_encode P) (items_of (sorted_entries fs))"
    using items by (intro ArrayEncoding_encode_pointwise) (simp add: list_all2_conv_all_nth)
  have c: "ArrayEncoding_compare Codec_compare (items_of (sorted_entries es))
      (items_of (sorted_entries fs)) = Inr 0"
    using items by (intro ArrayEncoding_compare_pointwise) (simp add: list_all2_conv_all_nth)
  show ?case
    using e c by (simp add: b ObjectEncoding_encode_items ObjectEncoding_compare_as_array)
qed (simp_all add: Codec_compare_same)

text \<open>
  C4. Two objects with equal entries (as many keys, and every key of the first a key
  of the second with a deeply equal value, whatever the order the entries were
  inserted in, at every depth) have the same encoding and compare 0. The two objects
  are values the codec represents: the keys of every object in them are pairwise
  distinct.
\<close>

theorem object_canonical:
  fixes P :: "('n::ord) prims"
  assumes "deep_equal (VObj o1) (VObj o2)"
      and "representable (VObj o1)" and "representable (VObj o2)"
  shows "Codec_encode P (VObj o1) = Codec_encode P (VObj o2)
         \<and> Codec_compare (VObj o1) (VObj o2) = Inr 0"
  using assms by (rule deep_equal_agree)

theorem object_canonical_witness:
  "deep_equal
     (VObj [(str ''a'', VObj [(str ''x'', VNum (1::nat)), (str ''y'', VNum 2)]), (str ''b'', VNull)])
     (VObj [(str ''b'', VNull), (str ''a'', VObj [(str ''y'', VNum 2), (str ''x'', VNum 1)])])
   \<and> representable
     (VObj [(str ''a'', VObj [(str ''x'', VNum (1::nat)), (str ''y'', VNum 2)]), (str ''b'', VNull)])
   \<and> representable
     (VObj [(str ''b'', VNull), (str ''a'', VObj [(str ''y'', VNum (2::nat)), (str ''x'', VNum 1)])])
   \<and> Codec_encode sample_prims
       (VObj [(str ''a'', VObj [(str ''x'', VNum 1), (str ''y'', VNum 2)]), (str ''b'', VNull)])
     = Codec_encode sample_prims
       (VObj [(str ''b'', VNull), (str ''a'', VObj [(str ''y'', VNum 2), (str ''x'', VNum 1)])])
   \<and> Codec_compare
       (VObj [(str ''a'', VObj [(str ''x'', VNum (1::nat)), (str ''y'', VNum 2)]), (str ''b'', VNull)])
       (VObj [(str ''b'', VNull), (str ''a'', VObj [(str ''y'', VNum 2), (str ''x'', VNum 1)])])
     = Inr 0"
proof -
  have d: "deep_equal
     (VObj [(str ''a'', VObj [(str ''x'', VNum (1::nat)), (str ''y'', VNum 2)]), (str ''b'', VNull)])
     (VObj [(str ''b'', VNull), (str ''a'', VObj [(str ''y'', VNum 2), (str ''x'', VNum 1)])])"
    by simp
  have r1: "representable
     (VObj [(str ''a'', VObj [(str ''x'', VNum (1::nat)), (str ''y'', VNum 2)]), (str ''b'', VNull)])"
    by simp
  have r2: "representable
     (VObj [(str ''b'', VNull), (str ''a'', VObj [(str ''y'', VNum (2::nat)), (str ''x'', VNum 1)])])"
    by simp
  show ?thesis
    using object_canonical [OF d r1 r2, of sample_prims] d r1 r2 by blast
qed

end
